theory Spec2Isabelle
  imports Main
begin

section \<open>Data model\<close>

text \<open>
  A Node \<open>Buffer\<close> is a sequence of bytes, modelled as a \<open>char list\<close> (an Isabelle
  \<open>char\<close> is one byte). A JavaScript string is a sequence of UTF-16 code units,
  modelled as a \<open>nat list\<close>. JavaScript numbers that hold lengths and counts are
  modelled as \<open>nat\<close> or \<open>int\<close>; the model is exact below \<open>2 ^ 53\<close>, where
  the double-precision numbers of the source are exact integers.
\<close>

type_synonym Buffer = "char list"

type_synonym jsstring = "nat list"

text \<open>\<open>type DynBuf = { data: Buffer; length: number }\<close>: the capacity is the
  length of \<open>data\<close>, the field \<open>length\<close> (here \<open>length'\<close>) the number of bytes in use.\<close>

record DynBuf =
  data :: Buffer
  length' :: nat

text \<open>\<open>buf.data.subarray(0, buf.length)\<close>: the logical content of the buffer.\<close>

definition content :: "DynBuf \<Rightarrow> Buffer" where
  "content buf = take (length' buf) (data buf)"

section \<open>Dynamic buffer\<close>

text \<open>
  \<open>source.copy(target, targetStart, sourceStart, sourceEnd)\<close> of Node: copies the bytes
  \<open>[sourceStart, sourceEnd)\<close> of \<open>source\<close> into \<open>target\<close> at \<open>targetStart\<close>, as
  many as fit into the target and as the source has, and behaves like \<open>memmove\<close> when
  both are the same buffer. The result is the target after the call. (Node raises a
  range error when \<open>sourceStart\<close> exceeds the length of the source; no call of this
  program does that on a buffer whose \<open>length\<close> is within its capacity.)
\<close>

definition copy :: "Buffer \<Rightarrow> Buffer \<Rightarrow> nat \<Rightarrow> nat \<Rightarrow> nat \<Rightarrow> Buffer" where
  "copy source target targetStart sourceStart sourceEnd =
     (if length target \<le> targetStart \<or> sourceEnd \<le> sourceStart then target
      else
        let nb = min (min (sourceEnd - sourceStart) (length target - targetStart))
                     (length source - sourceStart)
        in take targetStart target @ take nb (drop sourceStart source)
             @ drop (targetStart + nb) target)"

text \<open>\<open>while (cap < newLen) cap *= 2;\<close> The loop is entered with \<open>cap \<ge> 32\<close> only;
  the test \<open>0 < cap\<close> makes the function total on the other inputs.\<close>

function grow :: "nat \<Rightarrow> nat \<Rightarrow> nat" where
  "grow cap newLen = (if cap < newLen \<and> 0 < cap then grow (cap * 2) newLen else cap)"
  by pat_completeness auto
termination
  by (relation "measure (\<lambda>(cap, newLen). newLen - cap)") auto

declare grow.simps [simp del]

definition bufPush :: "DynBuf \<Rightarrow> Buffer \<Rightarrow> DynBuf" where
  "bufPush buf d =
     (let newLen = length' buf + length d;
          data1 =
            (if length (data buf) < newLen then
               let cap = grow (max (if length (data buf) = 0 then 32 else length (data buf)) 32)
                           newLen;
                   grown = replicate cap (CHR 0x00)
               in copy (data buf) grown 0 0 (length' buf)
             else data buf)
      in \<lparr>data = copy d data1 (length' buf) 0 (length d), length' = newLen\<rparr>)"

text \<open>\<open>bufPop\<close> is called with \<open>len \<le> buf.length\<close> only (the framer pops a header
  block it found in the content, the body reader pops \<open>min(buf.length, remain)\<close>).\<close>

definition bufPop :: "DynBuf \<Rightarrow> nat \<Rightarrow> DynBuf" where
  "bufPop buf len =
     \<lparr>data = copy (data buf) (data buf) 0 len (length' buf), length' = length' buf - len\<rparr>"

text \<open>The invariant of the data model: the logical length is within the capacity.\<close>

definition wf_buf :: "DynBuf \<Rightarrow> bool" where
  "wf_buf buf = (length' buf \<le> length (data buf))"

section \<open>Errors and the connection\<close>

text \<open>\<open>throw new HTTPError(code, message)\<close> and \<open>throw new Error(message)\<close>.\<close>

datatype error = HTTPError nat string | Error string

text \<open>
  The connection as the program sees it through \<open>soRead\<close> and \<open>soWrite\<close>: the chunks
  that the socket will still deliver, in order (\<open>incoming\<close>), after which a read
  is answered by the empty chunk of the end of the stream (the driver and the readers
  stop at the first empty chunk and issue no read after it); the number of reads issued
  (\<open>reads\<close>); and the chunks written so far (\<open>written\<close>). Transport errors are not
  modelled: every read and every write completes.
\<close>

record TCPConn =
  incoming :: "Buffer list"
  reads :: nat
  written :: "Buffer list"

definition soRead :: "TCPConn \<Rightarrow> Buffer \<times> TCPConn" where
  "soRead conn =
     (case incoming conn of
        [] \<Rightarrow> ([], conn\<lparr>reads := Suc (reads conn)\<rparr>)
      | d # ds \<Rightarrow> (d, conn\<lparr>incoming := ds, reads := Suc (reads conn)\<rparr>))"

definition soWrite :: "TCPConn \<Rightarrow> Buffer \<Rightarrow> TCPConn" where
  "soWrite conn d = conn\<lparr>written := written conn @ [d]\<rparr>"

section \<open>Body readers\<close>

text \<open>
  \<open>type BodyReader = { length: number; read: () => Promise<Buffer> }\<close>. The two
  closures of the program are the two constructors; the variables a closure captures
  and assigns (\<open>remain\<close>, \<open>done\<close>) are fields next to the declared \<open>length\<close>
  (here \<open>length_r\<close>). The connection and the shared buffer, which
  \<open>readerFromConLength\<close> captures by reference, are passed to \<open>read\<close> and returned.
\<close>

datatype BodyReader =
    ConLengthReader (length_r: nat) (remain: nat)
  | MemoryReader (length_r: nat) (data_m: Buffer) (done_m: bool)

definition readerFromConLength :: "nat \<Rightarrow> BodyReader" where
  "readerFromConLength remain0 = ConLengthReader remain0 remain0"

definition readerFromMemory :: "Buffer \<Rightarrow> BodyReader" where
  "readerFromMemory d = MemoryReader (length d) d False"

text \<open>
  The \<open>read\<close> closures. A pull returns the chunk or the error raised, and the reader,
  the connection and the buffer as the pull leaves them.

  In \<open>readerFromMemory\<close> the statement \<open>if (done) Buffer.from("");\<close> evaluates an
  expression and drops it (there is no \<open>return\<close>), so that \<open>done\<close> has no influence
  on the chunk returned.
\<close>

fun read :: "BodyReader \<Rightarrow> TCPConn \<Rightarrow> DynBuf
    \<Rightarrow> (error + Buffer) \<times> BodyReader \<times> TCPConn \<times> DynBuf" where
  "read (ConLengthReader len rem) conn buf =
     (if rem = 0 then (Inr [], ConLengthReader len rem, conn, buf)
      else if length' buf = 0 then
        (let (d, conn1) = soRead conn;
             buf1 = bufPush buf d
         in if length d = 0
            then (Inl (Error ''Unexpected EOF in body''), ConLengthReader len rem, conn1, buf1)
            else
              (let consume = min (length' buf1) rem;
                   chunk = take consume (data buf1)
               in (Inr chunk, ConLengthReader len (rem - consume), conn1, bufPop buf1 consume)))
      else
        (let consume = min (length' buf) rem;
             chunk = take consume (data buf)
         in (Inr chunk, ConLengthReader len (rem - consume), conn, bufPop buf consume)))"
| "read (MemoryReader len d dn) conn buf =
     (Inr d, MemoryReader len d True, conn, buf)"

text \<open>\<open>k\<close> successive pulls of a reader: the chunks in order, or the first error.\<close>

fun pulls :: "nat \<Rightarrow> BodyReader \<Rightarrow> TCPConn \<Rightarrow> DynBuf
    \<Rightarrow> (error + Buffer list) \<times> BodyReader \<times> TCPConn \<times> DynBuf" where
  "pulls 0 rd conn buf = (Inr [], rd, conn, buf)"
| "pulls (Suc k) rd conn buf =
     (case read rd conn buf of
        (Inl e, st) \<Rightarrow> (Inl e, st)
      | (Inr c, rd1, conn1, buf1) \<Rightarrow>
          (case pulls k rd1 conn1 buf1 of
             (Inl e, st) \<Rightarrow> (Inl e, st)
           | (Inr cs, st) \<Rightarrow> (Inr (c # cs), st)))"

section \<open>JavaScript strings and their conversions\<close>

text \<open>\<open>buf.toString("latin1")\<close>: every byte is one code unit.\<close>

definition latin1 :: "Buffer \<Rightarrow> jsstring" where
  "latin1 b = map of_char b"

text \<open>A string literal of the source (ASCII) as a JavaScript string.\<close>

definition js :: "string \<Rightarrow> jsstring" where
  "js s = map of_char s"

text \<open>A code point as UTF-16: one code unit, or a surrogate pair above \<open>0xFFFF\<close>.\<close>

definition utf16 :: "nat \<Rightarrow> jsstring" where
  "utf16 cp =
     (if cp < 65536 then [cp]
      else [55296 + (cp - 65536) div 1024, 56320 + (cp - 65536) mod 1024])"

text \<open>
  \<open>buf.toString()\<close> decodes UTF-8 and puts \<open>U+FFFD\<close> for every ill-formed
  sequence, as the decoder of the WHATWG Encoding Standard does: \<open>need\<close> is the
  number of continuation bytes still expected (\<open>0\<close> between characters), \<open>cp\<close> the
  code point collected so far, and \<open>lo\<close>, \<open>hi\<close> bound the next continuation
  byte. A byte that cannot continue a sequence ends it with \<open>U+FFFD\<close> and is then
  read as the first byte of the next character.
\<close>

fun utf8_from :: "nat \<Rightarrow> nat \<Rightarrow> nat \<Rightarrow> nat \<Rightarrow> nat list \<Rightarrow> jsstring" where
  "utf8_from need cp lo hi [] = (if need = 0 then [] else [65533])"
| "utf8_from need cp lo hi (b # bs) =
     (if need \<noteq> 0 \<and> lo \<le> b \<and> b \<le> hi then
        (if need = 1 then utf16 (cp * 64 + (b - 128)) @ utf8_from 0 0 128 191 bs
         else utf8_from (need - 1) (cp * 64 + (b - 128)) 128 191 bs)
      else
        (if need \<noteq> 0 then [65533] else []) @
        (if b < 128 then b # utf8_from 0 0 128 191 bs
         else if 194 \<le> b \<and> b \<le> 223 then utf8_from 1 (b - 192) 128 191 bs
         else if 224 \<le> b \<and> b \<le> 239 then
           utf8_from 2 (b - 224) (if b = 224 then 160 else 128) (if b = 237 then 159 else 191) bs
         else if 240 \<le> b \<and> b \<le> 244 then
           utf8_from 3 (b - 240) (if b = 240 then 144 else 128) (if b = 244 then 143 else 191) bs
         else 65533 # utf8_from 0 0 128 191 bs))"

definition toString :: "Buffer \<Rightarrow> jsstring" where
  "toString b = utf8_from 0 0 128 191 (map of_char b)"

text \<open>\<open>Buffer.from(str)\<close> encodes a string as UTF-8; a surrogate that is not part of
  a pair is encoded as \<open>U+FFFD\<close>.\<close>

definition utf8_unit :: "nat \<Rightarrow> nat list" where
  "utf8_unit u =
     (if u < 128 then [u]
      else if u < 2048 then [192 + u div 64, 128 + u mod 64]
      else if 55296 \<le> u \<and> u < 57344 then [239, 191, 189]
      else [224 + u div 4096, 128 + (u div 64) mod 64, 128 + u mod 64])"

definition utf8_pair :: "nat \<Rightarrow> nat \<Rightarrow> nat list" where
  "utf8_pair u v =
     (let cp = 65536 + (u - 55296) * 1024 + (v - 56320)
      in [240 + cp div 262144, 128 + (cp div 4096) mod 64, 128 + (cp div 64) mod 64,
          128 + cp mod 64])"

fun utf8_bytes :: "jsstring \<Rightarrow> nat list" where
  "utf8_bytes [] = []"
| "utf8_bytes [u] = utf8_unit u"
| "utf8_bytes (u # v # us) =
     (if 55296 \<le> u \<and> u < 56320 \<and> 56320 \<le> v \<and> v < 57344
      then utf8_pair u v @ utf8_bytes us
      else utf8_unit u @ utf8_bytes (v # us))"

definition Buffer_from :: "jsstring \<Rightarrow> Buffer" where
  "Buffer_from str = map char_of (utf8_bytes str)"

text \<open>The code units that \<open>trim\<close> strips and \<open>parseInt\<close> skips: the white space
  and line terminators of ECMAScript.\<close>

definition isWhiteSpace :: "nat \<Rightarrow> bool" where
  "isWhiteSpace u =
     (u = 9 \<or> u = 10 \<or> u = 11 \<or> u = 12 \<or> u = 13 \<or> u = 32 \<or> u = 160 \<or> u = 5760
      \<or> (8192 \<le> u \<and> u \<le> 8202) \<or> u = 8232 \<or> u = 8233 \<or> u = 8239 \<or> u = 8287
      \<or> u = 12288 \<or> u = 65279)"

definition trim :: "jsstring \<Rightarrow> jsstring" where
  "trim str = rev (dropWhile isWhiteSpace (rev (dropWhile isWhiteSpace str)))"

text \<open>\<open>str.split(sep)\<close> for a non-empty separator: the pieces between the
  occurrences of \<open>sep\<close>, found from left to right without overlap.\<close>

fun split_js :: "jsstring \<Rightarrow> jsstring \<Rightarrow> jsstring list" where
  "split_js sep [] = [[]]"
| "split_js sep (c # cs) =
     (if sep \<noteq> [] \<and> take (length sep) (c # cs) = sep
      then [] # split_js sep (drop (length sep - 1) cs)
      else (case split_js sep cs of
              [] \<Rightarrow> [[c]]
            | piece # pieces \<Rightarrow> (c # piece) # pieces))"

text \<open>\<open>indexOf\<close> of strings and of buffers: the first position at which the pattern
  occurs, or \<open>-1\<close>.\<close>

fun find_sub :: "'a list \<Rightarrow> 'a list \<Rightarrow> nat option" where
  "find_sub pat [] = (if pat = [] then Some 0 else None)"
| "find_sub pat (c # cs) =
     (if take (length pat) (c # cs) = pat then Some 0
      else map_option Suc (find_sub pat cs))"

definition indexOf :: "'a list \<Rightarrow> 'a list \<Rightarrow> int" where
  "indexOf s pat = (case find_sub pat s of None \<Rightarrow> - 1 | Some i \<Rightarrow> int i)"

definition startsWith :: "jsstring \<Rightarrow> jsstring \<Rightarrow> bool" where
  "startsWith str p = (take (length p) str = p)"

text \<open>\<open>toLowerCase\<close> on the code units below 256, the only ones of the strings it
  is applied to here (they are decoded as Latin-1, or are literals).\<close>

definition toLowerCase :: "jsstring \<Rightarrow> jsstring" where
  "toLowerCase str =
     map (\<lambda>u. if (65 \<le> u \<and> u \<le> 90) \<or> (192 \<le> u \<and> u \<le> 222 \<and> u \<noteq> 215) then u + 32 else u) str"

definition isDigit :: "nat \<Rightarrow> bool" where
  "isDigit u = (48 \<le> u \<and> u \<le> 57)"

text \<open>
  \<open>parseInt(str, 10)\<close>: leading white space is skipped, one sign is read, and the
  longest run of decimal digits that follows is the value; what comes after the digits
  is ignored. Without a digit there the result is \<open>NaN\<close>, here \<open>None\<close>. The
  value is the integer the digits denote; the source holds it as a double, which is
  that integer below \<open>2 ^ 53\<close>.
\<close>

definition parseInt10 :: "jsstring \<Rightarrow> int option" where
  "parseInt10 str =
     (let s = dropWhile isWhiteSpace str;
          negative = (s \<noteq> [] \<and> hd s = 45);
          s1 = (if s \<noteq> [] \<and> (hd s = 43 \<or> hd s = 45) then tl s else s);
          z = takeWhile isDigit s1
      in if z = [] then None
         else Some ((if negative then - 1 else 1) * int (foldl (\<lambda>a d. 10 * a + (d - 48)) 0 z)))"

definition parseDec :: "jsstring \<Rightarrow> int option" where
  "parseDec str = parseInt10 str"

definition CRLF :: Buffer where
  "CRLF = [CHR 0x0D, CHR 0x0A]"

section \<open>Header parsing\<close>

text \<open>\<open>type HTTPReq = { method; uri; version; headers }\<close>; the field \<open>method\<close> is
  \<open>method'\<close> here.\<close>

record HTTPReq =
  method' :: jsstring
  uri :: Buffer
  version :: jsstring
  headers :: "Buffer list"

definition splitLines :: "Buffer \<Rightarrow> Buffer list" where
  "splitLines d = map Buffer_from (split_js [13, 10] (toString d))"

definition parseRequestLine :: "Buffer \<Rightarrow> error + (jsstring \<times> Buffer \<times> jsstring)" where
  "parseRequestLine line =
     (let parts = split_js [32] (trim (toString line))
      in if length parts \<noteq> 3 then Inl (HTTPError 400 ''bad request line'')
         else
           let method = parts ! 0; uriStr = parts ! 1; version = parts ! 2
           in if startsWith version (js ''HTTP/'')
              then Inr (method, Buffer_from uriStr, drop 5 version)
              else Inl (HTTPError 400 ''bad version''))"

text \<open>The class of the regular expression of \<open>validateHeader\<close>:
  \<open>!#$%&'*+-.^_`|~\<close>, digits and letters.\<close>

definition tchar :: "nat \<Rightarrow> bool" where
  "tchar u =
     (u \<in> set (js ''!#$%&*+-.^_`|~'') \<or> u = 39 \<or> (48 \<le> u \<and> u \<le> 57) \<or> (65 \<le> u \<and> u \<le> 90)
      \<or> (97 \<le> u \<and> u \<le> 122))"

definition validateHeader :: "Buffer \<Rightarrow> bool" where
  "validateHeader line =
     (let str = toString line; idx = indexOf str [58]
      in if idx \<le> 0 \<or> idx = int (length str) - 1 then False
         else
           let name = take (nat idx) str
           in name \<noteq> [] \<and> list_all tchar name)"

text \<open>The loop of \<open>parseHTTPReq\<close> over the lines \<open>1 .. lines.length - 2\<close>, with the
  headers collected so far.\<close>

fun parseHeaders :: "Buffer list \<Rightarrow> Buffer list \<Rightarrow> error + Buffer list" where
  "parseHeaders [] hs = Inr hs"
| "parseHeaders (h # ls) hs =
     (if validateHeader h then parseHeaders ls (hs @ [h])
      else Inl (HTTPError 400 ''bad field''))"

text \<open>\<open>lines[0]\<close> is the head of the list: \<open>split\<close> returns at least one piece.
  \<open>console.assert\<close> prints and does not raise.\<close>

definition parseHTTPReq :: "Buffer \<Rightarrow> error + HTTPReq" where
  "parseHTTPReq d =
     (let lines = splitLines d
      in case parseRequestLine (hd lines) of
           Inl e \<Rightarrow> Inl e
         | Inr (m, u, v) \<Rightarrow>
             (case parseHeaders (butlast (tl lines)) [] of
                Inl e \<Rightarrow> Inl e
              | Inr hs \<Rightarrow> Inr \<lparr>method' = m, uri = u, version = v, headers = hs\<rparr>))"

definition kMaxHeaderLen :: nat where
  "kMaxHeaderLen = 8 * 1024"

text \<open>\<open>cutMessage\<close> returns the request, or \<open>None\<close> for \<open>null\<close>, or the error
  raised, and the buffer as it leaves it.\<close>

definition cutMessage :: "DynBuf \<Rightarrow> (error + HTTPReq option) \<times> DynBuf" where
  "cutMessage buf =
     (let view = content buf;
          idx = indexOf view (CRLF @ CRLF)
      in if idx < 0 then
           (if kMaxHeaderLen \<le> length' buf then (Inl (HTTPError 413 ''header too large''), buf)
            else (Inr None, buf))
         else
           (case parseHTTPReq (take (nat idx + 4) view) of
              Inl e \<Rightarrow> (Inl e, buf)
            | Inr msg \<Rightarrow> (Inr (Some msg), bufPop buf (nat idx + 4))))"

section \<open>Header lookup and the body reader of a request\<close>

fun fieldGet :: "Buffer list \<Rightarrow> jsstring \<Rightarrow> Buffer option" where
  "fieldGet [] key = None"
| "fieldGet (h # hs) key =
     (let lower = toLowerCase key;
          str = latin1 h;
          colon = indexOf str [58]
      in if colon \<le> 0 then fieldGet hs key
         else
           let name = toLowerCase (trim (take (nat colon) str))
           in if name = lower then Some (Buffer_from (trim (drop (nat colon + 1) str)))
              else fieldGet hs key)"

text \<open>
  \<open>readerFromReq\<close>. \<open>bodyLen\<close> starts as \<open>-1\<close>; a \<open>Content-Length\<close> field
  that \<open>parseDec\<close> turns into \<open>NaN\<close> raises 400. The connection and the buffer are
  only captured by the reader, so that building it has no effect on them.
\<close>

definition readerFromReq :: "HTTPReq \<Rightarrow> error + BodyReader" where
  "readerFromReq req =
     (case (case fieldGet (headers req) (js ''Content-Length'') of
              None \<Rightarrow> Inr (- 1)
            | Some cl \<Rightarrow>
                (case parseDec (latin1 cl) of
                   None \<Rightarrow> Inl (HTTPError 400 ''bad Content-Length'')
                 | Some n \<Rightarrow> Inr n)) of
        Inl e \<Rightarrow> Inl e
      | Inr bodyLen \<Rightarrow>
          (let bodyAllowed = (\<not> (method' req = js ''GET'' \<or> method' req = js ''HEAD''));
               chunked =
                 (case fieldGet (headers req) (js ''Transfer-Encoding'') of
                    None \<Rightarrow> False
                  | Some te \<Rightarrow> te = ''chunked'')
           in if \<not> bodyAllowed \<and> (0 < bodyLen \<or> chunked)
              then Inl (HTTPError 400 ''HTTP body not allowed'')
              else
                let bodyLen1 = (if \<not> bodyAllowed then 0 else bodyLen)
                in if 0 \<le> bodyLen1 then Inr (readerFromConLength (nat bodyLen1))
                   else if chunked then Inl (HTTPError 501 ''chunked not implemented'')
                   else Inl (HTTPError 501 ''unknown body type'')))"

section \<open>Request handler and connection driver\<close>

record HTTPRes =
  code :: nat
  headers_r :: "Buffer list"
  body :: BodyReader

definition HandleReq :: "HTTPReq \<Rightarrow> BodyReader \<Rightarrow> HTTPRes" where
  "HandleReq req bd =
     \<lparr>code = 200,
      headers_r = [''Server:my_first_http_server''],
      body = (if latin1 (uri req) = js ''/echo'' then bd
              else readerFromMemory (''Hello World.'' @ [CHR 0x0A]))\<rparr>"

text \<open>
  The \<open>while (true)\<close> loop of \<open>serveClient\<close>, on the connection and the
  buffer of the driver. It returns when the stream ends on an empty buffer, or with
  the error raised, and gives the connection and the buffer as it leaves them. The
  response \<open>res\<close> of the handler is bound and not used: the loop goes on to the next
  \<open>cutMessage\<close>.
\<close>

function serveLoop :: "TCPConn \<Rightarrow> DynBuf \<Rightarrow> (error + unit) \<times> TCPConn \<times> DynBuf" where
  "serveLoop conn buf =
     (case cutMessage buf of
        (Inl e, buf1) \<Rightarrow> (Inl e, conn, buf1)
      | (Inr None, buf1) \<Rightarrow>
          (case soRead conn of
             (d, conn1) \<Rightarrow>
               (let buf2 = bufPush buf1 d
                in if length d = 0 \<and> length' buf2 = 0 then (Inr (), conn1, buf2)
                   else if length d = 0 then (Inl (HTTPError 400 ''Unexpected EOF''), conn1, buf2)
                   else serveLoop conn1 buf2))
      | (Inr (Some msg), buf1) \<Rightarrow>
          (case readerFromReq msg of
             Inl e \<Rightarrow> (Inl e, conn, buf1)
           | Inr reqBody \<Rightarrow>
               (let res = HandleReq msg reqBody
                in serveLoop conn buf1)))"
  by pat_completeness auto

lemma soRead_shorter:
  "soRead conn = (d, conn1) \<Longrightarrow> length d \<noteq> 0 \<Longrightarrow> length (incoming conn1) < length (incoming conn)"
  by (auto simp: soRead_def split: list.splits)

lemma find_sub_nonempty: "find_sub pat s = Some i \<Longrightarrow> pat \<noteq> [] \<Longrightarrow> s \<noteq> []"
  by (cases s) auto

lemma cutMessage_shorter:
  assumes "cutMessage buf = (Inr (Some msg), buf1)"
  shows "length' buf1 < length' buf"
proof -
  from assms obtain i where i: "find_sub (CRLF @ CRLF) (content buf) = Some i"
    and b: "buf1 = bufPop buf (nat (int i) + 4)"
    by (auto simp: cutMessage_def Let_def indexOf_def split: if_splits sum.splits option.splits)
  have "content buf \<noteq> []"
    using find_sub_nonempty [OF i] by (simp add: CRLF_def)
  then have "0 < length' buf" by (auto simp: content_def)
  then show ?thesis using b by (simp add: bufPop_def)
qed

termination serveLoop
proof (relation "measures [\<lambda>(conn, buf). length (incoming conn), \<lambda>(conn, buf). length' buf]")
  show "wf (measures [\<lambda>(conn, buf). length (incoming conn), \<lambda>(conn, buf). length' buf])"
    by simp
next
  fix conn :: TCPConn and buf :: DynBuf and x1 buf1 x2 x2a d conn1 buf2
  assume "(x1, buf1) = cutMessage buf" "x1 = Inr x2" "x2 = None"
    "(d, conn1) = soRead conn" "buf2 = bufPush buf1 d"
    "\<not> (length d = 0 \<and> length' buf2 = 0)" "length d \<noteq> 0"
  then show "((conn1, buf2), conn, buf)
      \<in> measures [\<lambda>(conn, buf). length (incoming conn), \<lambda>(conn, buf). length' buf]"
    using soRead_shorter [of conn d conn1] by simp
next
  fix conn :: TCPConn and buf :: DynBuf and x1 buf1 x2 msg reqBody and res :: HTTPRes
  assume "(x1, buf1) = cutMessage buf" "x1 = Inr x2" "x2 = Some msg"
  then have "cutMessage buf = (Inr (Some msg), buf1)" by simp
  then show "((conn, buf1), conn, buf)
      \<in> measures [\<lambda>(conn, buf). length (incoming conn), \<lambda>(conn, buf). length' buf]"
    using cutMessage_shorter by simp
qed

declare serveLoop.simps [simp del]

text \<open>\<open>serveClient\<close> starts the loop on a new, empty buffer.\<close>

definition serveClient :: "TCPConn \<Rightarrow> (error + unit) \<times> TCPConn \<times> DynBuf" where
  "serveClient conn = serveLoop conn \<lparr>data = [], length' = 0\<rparr>"

section \<open>Response writer and connection handler\<close>

text \<open>The decimal digits of a number, as the template literals \<open>${res.code}\<close> and
  \<open>${resp.body.length}\<close> produce them for a non-negative integer.\<close>

fun numberToString :: "nat \<Rightarrow> jsstring" where
  "numberToString n =
     (if n < 10 then [48 + n] else numberToString (n div 10) @ [48 + n mod 10])"

declare numberToString.simps [simp del]

text \<open>\<open>encodeHTTPResp\<close>: the status line, the header lines and the empty line.\<close>

definition encodeHTTPResp :: "HTTPRes \<Rightarrow> Buffer" where
  "encodeHTTPResp res =
     Buffer_from
       (js ''HTTP/1.1 '' @ numberToString (code res) @ js '' OK'' @ [13, 10]
        @ concat (map (\<lambda>h. latin1 h @ [13, 10]) (headers_r res))
        @ [13, 10])"

text \<open>
  The \<open>while (true)\<close> loop of \<open>writeHTTPResp\<close>: pull the body and write each chunk
  until a pull returns the empty chunk. The loop need not end; \<open>None\<close> stands for a
  run that never returns.
\<close>

partial_function (option) writeBody ::
    "BodyReader \<Rightarrow> TCPConn \<Rightarrow> DynBuf
      \<Rightarrow> ((error + unit) \<times> BodyReader \<times> TCPConn \<times> DynBuf) option" where
  "writeBody rd conn buf =
     (case read rd conn buf of
        (Inl e, st) \<Rightarrow> Some (Inl e, st)
      | (Inr d, rd1, conn1, buf1) \<Rightarrow>
          if length d = 0 then Some (Inr (), rd1, conn1, buf1)
          else writeBody rd1 (soWrite conn1 d) buf1)"

text \<open>
  \<open>writeHTTPResp\<close> appends the \<open>Content-Length\<close> header, writes the header block
  as one chunk and then the body. Its first test, \<open>resp.body.length < 0\<close>, never holds
  for the readers of this program, whose \<open>length\<close> is a byte count.
\<close>

definition writeHTTPResp ::
    "TCPConn \<Rightarrow> DynBuf \<Rightarrow> HTTPRes
      \<Rightarrow> ((error + unit) \<times> BodyReader \<times> TCPConn \<times> DynBuf) option" where
  "writeHTTPResp conn buf resp =
     (let hs = headers_r resp
                 @ [Buffer_from (js ''Content-Length: '' @ numberToString (length_r (body resp)))];
          conn1 = soWrite conn (encodeHTTPResp (resp\<lparr>headers_r := hs\<rparr>))
      in writeBody (body resp) conn1 buf)"

text \<open>
  \<open>newConn\<close>: run the driver; on an \<open>HTTPError\<close> write the error response, whose
  body is the message and a line feed in memory, and ignore what that write raises.
  The result is the connection at the moment \<open>socket.destroy()\<close> is reached, or
  \<open>None\<close> when it is never reached.
\<close>

definition newConn :: "TCPConn \<Rightarrow> TCPConn option" where
  "newConn conn =
     (case serveClient conn of
        (Inr u, conn1, buf1) \<Rightarrow> Some conn1
      | (Inl (Error m), conn1, buf1) \<Rightarrow> Some conn1
      | (Inl (HTTPError c m), conn1, buf1) \<Rightarrow>
          map_option (\<lambda>(r, rd, conn2, buf2). conn2)
            (writeHTTPResp conn1 buf1
               \<lparr>code = c, headers_r = [], body = readerFromMemory (Buffer_from (js m @ [10]))\<rparr>))"

section \<open>Properties of the dynamic buffer\<close>

lemma grow_ge: "0 < cap \<Longrightarrow> newLen \<le> grow cap newLen"
  by (induction cap newLen rule: grow.induct) (subst grow.simps, auto)

lemma grow_doubling:
  "0 < cap \<Longrightarrow> \<exists>k. grow cap newLen = cap * 2 ^ k \<and> (k = 0 \<or> cap * 2 ^ (k - 1) < newLen)"
proof (induction cap newLen rule: grow.induct)
  case (1 cap newLen)
  show ?case
  proof (cases "cap < newLen")
    case True
    with "1.prems" "1.IH" obtain k where
      k: "grow (cap * 2) newLen = cap * 2 * 2 ^ k" "k = 0 \<or> cap * 2 * 2 ^ (k - 1) < newLen"
      by auto
    have g: "grow cap newLen = grow (cap * 2) newLen"
      using True "1.prems" by (subst grow.simps) simp
    have "cap * 2 ^ (Suc k - 1) < newLen"
    proof (cases k)
      case 0
      then show ?thesis using True by simp
    next
      case (Suc j)
      then show ?thesis using k(2) by (simp add: mult.assoc)
    qed
    then have "grow cap newLen = cap * 2 ^ Suc k \<and> (Suc k = 0 \<or> cap * 2 ^ (Suc k - 1) < newLen)"
      using g k(1) by (simp add: mult.assoc)
    then show ?thesis by blast
  next
    case False
    then have "grow cap newLen = cap * 2 ^ 0" by (subst grow.simps) simp
    then show ?thesis by blast
  qed
qed

lemma length_copy [simp]: "length (copy s t ts ss se) = length t"
  by (auto simp: copy_def Let_def min_def)

lemma copy_eq:
  assumes "se \<le> length s" "ss \<le> se" "ts + (se - ss) \<le> length t"
  shows "copy s t ts ss se = take ts t @ take (se - ss) (drop ss s) @ drop (ts + (se - ss)) t"
proof (cases "length t \<le> ts \<or> se \<le> ss")
  case True
  then have z: "se - ss = 0" using assms by auto
  have "copy s t ts ss se = t" using True by (simp add: copy_def)
  then show ?thesis using z by simp
next
  case False
  have "min (min (se - ss) (length t - ts)) (length s - ss) = se - ss"
    using assms False by auto
  then show ?thesis using False by (simp add: copy_def Let_def)
qed

lemma data_bufPush_grown:
  assumes "wf_buf buf" "length (data buf) < length' buf + length d"
  shows "\<exists>cap. length' buf + length d \<le> cap \<and>
           data (bufPush buf d) =
             content buf @ d @ replicate (cap - (length' buf + length d)) (CHR 0x00)"
proof -
  let ?n = "length' buf + length d"
  let ?cap = "grow (max (if length (data buf) = 0 then 32 else length (data buf)) 32) ?n"
  let ?grown = "replicate ?cap (CHR 0x00)"
  have cap: "?n \<le> ?cap" by (rule grow_ge) simp
  have l: "length' buf \<le> length (data buf)" using assms(1) by (simp add: wf_buf_def)
  have c1: "copy (data buf) ?grown 0 0 (length' buf)
              = content buf @ replicate (?cap - length' buf) (CHR 0x00)"
    using l cap by (subst copy_eq) (auto simp: content_def)
  have lc: "length (content buf) = length' buf" using l by (simp add: content_def)
  have c2: "copy d (content buf @ replicate (?cap - length' buf) (CHR 0x00)) (length' buf) 0 (length d)
              = content buf @ d @ replicate (?cap - ?n) (CHR 0x00)"
    using cap lc by (subst copy_eq) (auto simp: add.commute)
  have "data (bufPush buf d) = content buf @ d @ replicate (?cap - ?n) (CHR 0x00)"
    using assms(2) c1 c2 by (simp add: bufPush_def Let_def)
  with cap show ?thesis by blast
qed

lemma data_bufPush_fits:
  assumes "wf_buf buf" "length' buf + length d \<le> length (data buf)"
  shows "data (bufPush buf d) =
           content buf @ d @ drop (length' buf + length d) (data buf)"
proof -
  have "copy d (data buf) (length' buf) 0 (length d)
          = take (length' buf) (data buf) @ take (length d) (drop 0 d) @ drop (length' buf + (length d - 0)) (data buf)"
    using assms(2) by (subst copy_eq) auto
  then show ?thesis using assms(2) by (simp add: bufPush_def Let_def content_def)
qed

lemma length'_bufPush [simp]: "length' (bufPush buf d) = length' buf + length d"
  by (simp add: bufPush_def Let_def)

lemma content_bufPush:
  assumes "wf_buf buf"
  shows "content (bufPush buf d) = content buf @ d"
proof -
  have lc: "length (content buf) = length' buf"
    using assms by (simp add: content_def wf_buf_def)
  show ?thesis
  proof (cases "length (data buf) < length' buf + length d")
    case True
    from data_bufPush_grown [OF assms True] obtain cap where
      "data (bufPush buf d) = content buf @ d @ replicate (cap - (length' buf + length d)) (CHR 0x00)"
      by blast
    then have "content (bufPush buf d)
        = take (length' buf + length d) (content buf @ d @ replicate (cap - (length' buf + length d)) (CHR 0x00))"
      by (simp add: content_def [of "bufPush buf d"])
    then show ?thesis using lc by simp
  next
    case False
    then have "data (bufPush buf d) = content buf @ d @ drop (length' buf + length d) (data buf)"
      using data_bufPush_fits [OF assms] by simp
    then have "content (bufPush buf d)
        = take (length' buf + length d) (content buf @ d @ drop (length' buf + length d) (data buf))"
      by (simp add: content_def [of "bufPush buf d"])
    then show ?thesis using lc by simp
  qed
qed

lemma wf_bufPush: "wf_buf buf \<Longrightarrow> wf_buf (bufPush buf d)"
proof -
  assume w: "wf_buf buf"
  let ?n = "length' buf + length d"
  have "?n \<le> grow (max (if length (data buf) = 0 then 32 else length (data buf)) 32) ?n"
    by (rule grow_ge) simp
  then show ?thesis
    by (simp add: bufPush_def wf_buf_def Let_def)
qed

lemma length'_bufPop [simp]: "length' (bufPop buf n) = length' buf - n"
  by (simp add: bufPop_def)

lemma content_bufPop:
  assumes "wf_buf buf" "n \<le> length' buf"
  shows "content (bufPop buf n) = drop n (content buf)"
proof -
  have l: "length' buf \<le> length (data buf)" using assms(1) by (simp add: wf_buf_def)
  have "copy (data buf) (data buf) 0 n (length' buf)
          = take 0 (data buf) @ take (length' buf - n) (drop n (data buf))
              @ drop (0 + (length' buf - n)) (data buf)"
    using l assms(2) by (subst copy_eq) auto
  then have "content (bufPop buf n) = take (length' buf - n) (take (length' buf - n) (drop n (data buf))
              @ drop (length' buf - n) (data buf))"
    by (simp add: bufPop_def content_def)
  also have "\<dots> = take (length' buf - n) (drop n (data buf))"
    using l assms(2) by simp
  also have "\<dots> = drop n (content buf)"
    by (simp add: content_def drop_take)
  finally show ?thesis .
qed

lemma wf_bufPop: "wf_buf buf \<Longrightarrow> wf_buf (bufPop buf n)"
  by (simp add: bufPop_def wf_buf_def)

lemma capacity_bufPush:
  "if length' buf + length d \<le> length (data buf)
   then length (data (bufPush buf d)) = length (data buf)
   else \<exists>k. length (data (bufPush buf d)) = max 32 (length (data buf)) * 2 ^ k
          \<and> length' buf + length d \<le> max 32 (length (data buf)) * 2 ^ k
          \<and> (k = 0 \<or> max 32 (length (data buf)) * 2 ^ (k - 1) < length' buf + length d)"
proof (cases "length' buf + length d \<le> length (data buf)")
  case True
  then show ?thesis by (simp add: bufPush_def Let_def)
next
  case False
  let ?n = "length' buf + length d"
  let ?c = "max 32 (length (data buf))"
  have c: "max (if length (data buf) = 0 then 32 else length (data buf)) 32 = ?c"
    by (simp add: max.commute)
  have pos: "0 < ?c" by simp
  from grow_doubling [OF pos, of ?n] obtain k where
    k: "grow ?c ?n = ?c * 2 ^ k" "k = 0 \<or> ?c * 2 ^ (k - 1) < ?n"
    by blast
  have "?n \<le> grow ?c ?n" by (rule grow_ge [OF pos])
  moreover have "length (data (bufPush buf d)) = grow ?c ?n"
    using False unfolding bufPush_def Let_def c by simp
  ultimately have "length (data (bufPush buf d)) = ?c * 2 ^ k \<and> ?n \<le> ?c * 2 ^ k
      \<and> (k = 0 \<or> ?c * 2 ^ (k - 1) < ?n)"
    using k by simp
  then have "\<exists>k. length (data (bufPush buf d)) = ?c * 2 ^ k \<and> ?n \<le> ?c * 2 ^ k
      \<and> (k = 0 \<or> ?c * 2 ^ (k - 1) < ?n)"
    by blast
  with False show ?thesis by simp
qed

text \<open>
  Claim C9. On a buffer whose length is within its capacity, \<open>bufPush\<close> of \<open>d\<close>
  followed by \<open>bufPop\<close> of \<open>n\<close> bytes, \<open>n\<close> at most the length after the push, leaves
  as logical content the content before, followed by \<open>d\<close>, without its first \<open>n\<close>
  bytes (so the remaining bytes keep their order). \<open>bufPop\<close> keeps the capacity;
  \<open>bufPush\<close> keeps it when the pushed bytes fit, and otherwise makes it the least
  doubling of \<open>max 32 capacity\<close> that holds the new length.
\<close>

theorem bufPush_bufPop:
  assumes "wf_buf buf" and "n \<le> length' (bufPush buf d)"
  shows "content (bufPop (bufPush buf d) n) = drop n (content buf @ d)
    \<and> length (data (bufPop (bufPush buf d) n)) = length (data (bufPush buf d))
    \<and> (if length' buf + length d \<le> length (data buf)
       then length (data (bufPush buf d)) = length (data buf)
       else \<exists>k. length (data (bufPush buf d)) = max 32 (length (data buf)) * 2 ^ k
              \<and> length' buf + length d \<le> max 32 (length (data buf)) * 2 ^ k
              \<and> (k = 0 \<or> max 32 (length (data buf)) * 2 ^ (k - 1) < length' buf + length d))"
proof -
  have "content (bufPop (bufPush buf d) n) = drop n (content (bufPush buf d))"
    using assms by (intro content_bufPop wf_bufPush)
  then have a: "content (bufPop (bufPush buf d) n) = drop n (content buf @ d)"
    using assms(1) by (simp add: content_bufPush)
  have b: "length (data (bufPop (bufPush buf d) n)) = length (data (bufPush buf d))"
    by (simp add: bufPop_def)
  show ?thesis using a b capacity_bufPush [of buf d] by blast
qed

theorem bufPush_bufPop_witness:
  "content (bufPop (bufPush \<lparr>data = [], length' = 0\<rparr> ''abc'') 1) = ''bc''
   \<and> length (data (bufPush \<lparr>data = [], length' = 0\<rparr> ''abc'')) = 32"
proof -
  have w: "wf_buf \<lparr>data = [], length' = 0\<rparr>" by (simp add: wf_buf_def)
  have n: "1 \<le> length' (bufPush \<lparr>data = [], length' = 0\<rparr> ''abc'')" by simp
  have g: "grow 32 (Suc (Suc (Suc 0))) = 32" by (subst grow.simps) simp
  have "length (data (bufPush \<lparr>data = [], length' = 0\<rparr> ''abc'')) = 32"
    by (simp add: bufPush_def Let_def g)
  then show ?thesis
    using bufPush_bufPop [OF w n] by (simp add: content_def)
qed

section \<open>Properties of the body readers\<close>

lemma pulls_MemoryReader:
  "pulls k (MemoryReader n d b) conn buf
     = (Inr (replicate k d), MemoryReader n d (b \<or> 0 < k), conn, buf)"
  by (induction k arbitrary: b) auto

lemma writeBody_not_memory:
  assumes "writeBody rd conn buf = Some y" and "d \<noteq> []"
  shows "\<not> (\<exists>b. rd = MemoryReader n d b)"
proof (rule writeBody.raw_induct
    [where P = "\<lambda>rd conn buf y. \<not> (\<exists>b. rd = MemoryReader n d b)", OF _ assms(1)])
  fix w rd conn buf y
  assume IH: "\<And>rd conn buf y. w rd conn buf = Some y \<Longrightarrow> \<not> (\<exists>b. rd = MemoryReader n d b)"
    and body: "(case read rd conn buf of
        (Inl e, st) \<Rightarrow> Some (Inl e, st)
      | (Inr d, rd1, conn1, buf1) \<Rightarrow>
          if length d = 0 then Some (Inr (), rd1, conn1, buf1)
          else w rd1 (soWrite conn1 d) buf1) = Some y"
  show "\<not> (\<exists>b. rd = MemoryReader n d b)"
  proof
    assume "\<exists>b. rd = MemoryReader n d b"
    then obtain b where rd: "rd = MemoryReader n d b" by blast
    have next_pull: "w (MemoryReader n d True) (soWrite conn d) buf = Some y"
      using body assms(2) unfolding rd by simp
    show False using IH [OF next_pull] by blast
  qed
qed

lemma writeBody_memory_diverges:
  assumes "d \<noteq> []"
  shows "writeBody (MemoryReader n d b) conn buf = None"
proof (cases "writeBody (MemoryReader n d b) conn buf")
  case None
  then show ?thesis .
next
  case (Some y)
  from writeBody_not_memory [OF Some assms, of n] show ?thesis by blast
qed

lemma writeBody_ConLength_done:
  "writeBody (ConLengthReader L 0) conn buf = Some (Inr (), ConLengthReader L 0, conn, buf)"
  by (subst writeBody.simps) simp

lemma writeHTTPResp_memory_diverges:
  "d \<noteq> [] \<Longrightarrow> writeHTTPResp conn buf \<lparr>code = c, headers_r = hs, body = readerFromMemory d\<rparr> = None"
  by (simp add: writeHTTPResp_def Let_def readerFromMemory_def writeBody_memory_diverges)

text \<open>
  Claim C2 (the code departs from it). The in-memory reader of the payload
  \<open>Hello World.\<close> and a line feed (the body of the handler's default response)
  yields the payload at its first pull and the same payload, not an empty chunk, at
  every later pull: any number of pulls returns that many copies of the payload. The
  consumer of the program that pulls until an empty chunk, \<open>writeHTTPResp\<close>, never
  returns on a response with this body.
\<close>

theorem readerFromMemory_repeats:
  "pulls (Suc k) (readerFromMemory (''Hello World.'' @ [CHR 0x0A])) conn buf
     = (Inr (replicate (Suc k) (''Hello World.'' @ [CHR 0x0A])),
        MemoryReader 13 (''Hello World.'' @ [CHR 0x0A]) True, conn, buf)
   \<and> writeHTTPResp conn buf
        \<lparr>code = 200, headers_r = hs, body = readerFromMemory (''Hello World.'' @ [CHR 0x0A])\<rparr>
       = None"
proof -
  have "pulls (Suc k) (readerFromMemory (''Hello World.'' @ [CHR 0x0A])) conn buf
     = (Inr (replicate (Suc k) (''Hello World.'' @ [CHR 0x0A])),
        MemoryReader 13 (''Hello World.'' @ [CHR 0x0A]) True, conn, buf)"
    unfolding readerFromMemory_def pulls_MemoryReader by simp
  moreover have "writeHTTPResp conn buf
        \<lparr>code = 200, headers_r = hs, body = readerFromMemory (''Hello World.'' @ [CHR 0x0A])\<rparr>
       = None"
    by (rule writeHTTPResp_memory_diverges) simp
  ultimately show ?thesis by blast
qed

lemma length_content: "wf_buf buf \<Longrightarrow> length (content buf) = length' buf"
  by (simp add: content_def wf_buf_def)

lemma take_data_content: "m \<le> length' buf \<Longrightarrow> take m (data buf) = take m (content buf)"
  by (simp add: content_def min_def)

lemma read_buffered:
  assumes "wf_buf buf" "0 < r" "length' buf \<noteq> 0"
  shows "read (ConLengthReader L r) conn buf
           = (Inr (take (min (length' buf) r) (content buf)),
              ConLengthReader L (r - min (length' buf) r), conn,
              bufPop buf (min (length' buf) r))"
  using assms by (simp add: Let_def take_data_content)

lemma read_refill:
  assumes "wf_buf buf" "0 < r" "length' buf = 0" "incoming conn = d # ds" "d \<noteq> []"
  shows "read (ConLengthReader L r) conn buf
           = (Inr (take (min (length d) r) d),
              ConLengthReader L (r - min (length d) r),
              conn\<lparr>incoming := ds, reads := Suc (reads conn)\<rparr>,
              bufPop (bufPush buf d) (min (length d) r))"
proof -
  have c: "content (bufPush buf d) = d"
    using assms(1,3) by (simp add: content_bufPush) (simp add: content_def)
  have "take (min (length d) r) (data (bufPush buf d)) = take (min (length d) r) (content (bufPush buf d))"
    using assms(3) by (intro take_data_content) simp
  then have t: "take (min (length d) r) (data (bufPush buf d)) = take (min (length d) r) d"
    using c by simp
  show ?thesis
    using assms t by (simp add: Let_def soRead_def)
qed

lemma content_empty: "wf_buf buf \<Longrightarrow> length' buf = 0 \<Longrightarrow> content buf = []"
  by (simp add: content_def)

text \<open>
  Claim C10. A pull of a length-bounded reader with \<open>r > 0\<close> bytes remaining takes
  \<open>m = min (buffered length) r\<close> bytes from the front of the shared buffer, the
  buffered length being that of the buffer the pull consumes from: the buffer as it is
  when it holds bytes, and the chunk of the one adapter read when it was empty. The
  chunk is the first \<open>m\<close> bytes, \<open>m\<close> is at most \<open>r\<close>, and the buffer keeps the
  other bytes in order. When the buffer is empty and the adapter read returns the
  empty chunk, the pull raises an error and the buffer stays empty.
\<close>

theorem read_consumes_min:
  assumes "wf_buf buf" and "0 < r"
  shows "(length' buf \<noteq> 0 \<longrightarrow>
           (let m = min (length' buf) r in
              read (ConLengthReader L r) conn buf
                = (Inr (take m (content buf)), ConLengthReader L (r - m), conn, bufPop buf m)
              \<and> content (bufPop buf m) = drop m (content buf)
              \<and> length (take m (content buf)) = m \<and> m \<le> r))
       \<and> (length' buf = 0 \<longrightarrow> incoming conn = d # ds \<longrightarrow> d \<noteq> [] \<longrightarrow>
           (let m = min (length d) r in
              read (ConLengthReader L r) conn buf
                = (Inr (take m d), ConLengthReader L (r - m),
                   conn\<lparr>incoming := ds, reads := Suc (reads conn)\<rparr>,
                   bufPop (bufPush buf d) m)
              \<and> content (bufPop (bufPush buf d) m) = drop m d
              \<and> length (take m d) = m \<and> m \<le> r))
       \<and> (length' buf = 0 \<longrightarrow> fst (soRead conn) = [] \<longrightarrow>
           read (ConLengthReader L r) conn buf
             = (Inl (Error ''Unexpected EOF in body''), ConLengthReader L r, snd (soRead conn),
                bufPush buf [])
           \<and> content (bufPush buf []) = [])"
proof (intro conjI impI)
  assume ne: "length' buf \<noteq> 0"
  have "content (bufPop buf (min (length' buf) r)) = drop (min (length' buf) r) (content buf)"
    using assms(1) by (intro content_bufPop) simp_all
  moreover have "length (take (min (length' buf) r) (content buf)) = min (length' buf) r"
    using assms(1) by (simp add: length_content)
  ultimately show "let m = min (length' buf) r in
              read (ConLengthReader L r) conn buf
                = (Inr (take m (content buf)), ConLengthReader L (r - m), conn, bufPop buf m)
              \<and> content (bufPop buf m) = drop m (content buf)
              \<and> length (take m (content buf)) = m \<and> m \<le> r"
    unfolding Let_def using read_buffered [OF assms ne] by simp
next
  assume e: "length' buf = 0" and i: "incoming conn = d # ds" and d: "d \<noteq> []"
  have "content (bufPop (bufPush buf d) (min (length d) r))
          = drop (min (length d) r) (content (bufPush buf d))"
    using assms(1) e by (intro content_bufPop wf_bufPush) simp_all
  then have "content (bufPop (bufPush buf d) (min (length d) r)) = drop (min (length d) r) d"
    using assms(1) e by (simp add: content_bufPush content_empty)
  then show "let m = min (length d) r in
              read (ConLengthReader L r) conn buf
                = (Inr (take m d), ConLengthReader L (r - m),
                   conn\<lparr>incoming := ds, reads := Suc (reads conn)\<rparr>,
                   bufPop (bufPush buf d) m)
              \<and> content (bufPop (bufPush buf d) m) = drop m d
              \<and> length (take m d) = m \<and> m \<le> r"
    unfolding Let_def using read_refill [OF assms e i d] by simp
next
  assume e: "length' buf = 0" and eof: "fst (soRead conn) = []"
  obtain d conn1 where s: "soRead conn = (d, conn1)" by (cases "soRead conn") auto
  then have d: "d = []" using eof by simp
  show "read (ConLengthReader L r) conn buf
          = (Inl (Error ''Unexpected EOF in body''), ConLengthReader L r, snd (soRead conn),
             bufPush buf [])"
    using assms(2) e s d by simp
next
  assume e: "length' buf = 0"
  show "content (bufPush buf []) = []"
    using assms(1) e by (simp add: content_bufPush content_empty)
qed

theorem read_consumes_min_witness:
  "fst (read (ConLengthReader 3 3) \<lparr>incoming = [], reads = 0, written = []\<rparr>
          \<lparr>data = ''abcdef'', length' = 5\<rparr>) = Inr ''abc''
   \<and> content (bufPop \<lparr>data = ''abcdef'', length' = 5\<rparr> 3) = ''de''"
proof -
  have w: "wf_buf \<lparr>data = ''abcdef'', length' = 5\<rparr>" by (simp add: wf_buf_def)
  have r: "0 < (3::nat)" by simp
  show ?thesis
    using read_consumes_min [OF w r, of 3 "\<lparr>incoming = [], reads = 0, written = []\<rparr>" "[]" "[]"]
    by (simp add: content_def Let_def)
qed

lemma length_r_read: "length_r (fst (snd (read rd conn buf))) = length_r rd"
  by (cases rd) (simp_all add: Let_def split: prod.splits)

lemma length_r_pulls: "length_r (fst (snd (pulls j rd conn buf))) = length_r rd"
proof (induction j arbitrary: rd conn buf)
  case 0
  show ?case by simp
next
  case (Suc j)
  obtain x rd1 conn1 buf1 where r: "read rd conn buf = (x, rd1, conn1, buf1)"
    by (cases "read rd conn buf") auto
  have l1: "length_r rd1 = length_r rd"
    using length_r_read [of rd conn buf] r by simp
  show ?case
  proof (cases x)
    case (Inl e)
    then show ?thesis using r l1 by simp
  next
    case (Inr c)
    obtain y rd2 conn2 buf2 where p: "pulls j rd1 conn1 buf1 = (y, rd2, conn2, buf2)"
      by (cases "pulls j rd1 conn1 buf1") auto
    have "length_r rd2 = length_r rd1"
      using Suc.IH [of rd1 conn1 buf1] p by simp
    then show ?thesis using r Inr p l1 by (cases y) simp_all
  qed
qed

lemma pulls_done:
  "pulls m (ConLengthReader L 0) conn buf = (Inr (replicate m []), ConLengthReader L 0, conn, buf)"
  by (induction m) simp_all

lemma take_split:
  "m \<le> length A \<Longrightarrow> m \<le> r \<Longrightarrow> take r (A @ B) = take m A @ take (r - m) (drop m A @ B)"
proof -
  assume a: "m \<le> length A" "m \<le> r"
  have "take (m + (r - m)) (A @ B) = take m (A @ B) @ take (r - m) (drop m (A @ B))"
    by (rule take_add)
  then show ?thesis using a by simp
qed

lemma drop_split:
  "m \<le> length A \<Longrightarrow> m \<le> r \<Longrightarrow> drop r (A @ B) = drop (r - m) (drop m A @ B)"
proof -
  assume a: "m \<le> length A" "m \<le> r"
  have "drop (r - m) (drop m A @ B) = drop (r - m) (drop m (A @ B))" using a by simp
  also have "\<dots> = drop r (A @ B)" using a by (simp only: drop_drop) simp
  finally show ?thesis by simp
qed

lemma pulls_Suc_ok:
  assumes "read rd conn buf = (Inr c, rd1, conn1, buf1)"
    and "pulls k rd1 conn1 buf1 = (Inr cs, st)"
  shows "pulls (Suc k) rd conn buf = (Inr (c # cs), st)"
  using assms by simp

lemma pulls_ConLength:
  assumes "wf_buf buf" and "list_all (\<lambda>c. c \<noteq> []) (incoming conn)"
    and "r \<le> length (content buf @ concat (incoming conn))"
  shows "\<exists>k cs conn' buf'.
           pulls k (ConLengthReader L r) conn buf = (Inr cs, ConLengthReader L 0, conn', buf')
           \<and> concat cs = take r (content buf @ concat (incoming conn))
           \<and> list_all (\<lambda>c. c \<noteq> []) cs
           \<and> content buf' @ concat (incoming conn')
               = drop r (content buf @ concat (incoming conn))"
  using assms
proof (induction r arbitrary: conn buf rule: less_induct)
  case (less r)
  show ?case
  proof (cases "r = 0")
    case True
    have "pulls 0 (ConLengthReader L r) conn buf = (Inr [], ConLengthReader L 0, conn, buf)"
      using True by simp
    then show ?thesis using True by fastforce
  next
    case False
    then have rpos: "0 < r" by simp
    have "\<exists>A B m conn1 buf1.
            read (ConLengthReader L r) conn buf
              = (Inr (take m A), ConLengthReader L (r - m), conn1, buf1)
            \<and> 0 < m \<and> m \<le> length A \<and> m \<le> r
            \<and> content buf @ concat (incoming conn) = A @ B
            \<and> content buf1 @ concat (incoming conn1) = drop m A @ B
            \<and> wf_buf buf1 \<and> list_all (\<lambda>c. c \<noteq> []) (incoming conn1)"
    proof (cases "length' buf = 0")
      case False
      let ?m = "min (length' buf) r"
      have 1: "read (ConLengthReader L r) conn buf
           = (Inr (take ?m (content buf)), ConLengthReader L (r - ?m), conn, bufPop buf ?m)"
        by (rule read_buffered [OF less.prems(1) rpos False])
      have 2: "content (bufPop buf ?m) = drop ?m (content buf)"
        using less.prems(1) by (intro content_bufPop) simp_all
      have 3: "0 < ?m" "?m \<le> length (content buf)" "?m \<le> r"
        using False rpos less.prems(1) by (simp_all add: length_content)
      have 4: "wf_buf (bufPop buf ?m)" by (rule wf_bufPop [OF less.prems(1)])
      show ?thesis
        using 1 2 3 4 less.prems(2) by (intro exI [of _ "content buf"] exI [of _ "concat (incoming conn)"] exI [of _ ?m] exI [of _ conn] exI [of _ "bufPop buf ?m"]) simp
    next
      case True
      have ce: "content buf = []" by (rule content_empty [OF less.prems(1) True])
      then have "incoming conn \<noteq> []" using less.prems(3) rpos by auto
      then obtain d ds where i: "incoming conn = d # ds" by (cases "incoming conn") auto
      then have d: "d \<noteq> []" and ds: "list_all (\<lambda>c. c \<noteq> []) ds"
        using less.prems(2) by simp_all
      let ?m = "min (length d) r"
      let ?conn1 = "conn\<lparr>incoming := ds, reads := Suc (reads conn)\<rparr>"
      let ?buf1 = "bufPop (bufPush buf d) ?m"
      have 1: "read (ConLengthReader L r) conn buf
           = (Inr (take ?m d), ConLengthReader L (r - ?m), ?conn1, ?buf1)"
        by (rule read_refill [OF less.prems(1) rpos True i d])
      have "content ?buf1 = drop ?m (content (bufPush buf d))"
        using less.prems(1) True by (intro content_bufPop wf_bufPush) simp_all
      then have 2: "content ?buf1 = drop ?m d"
        using less.prems(1) ce by (simp add: content_bufPush)
      have 3: "0 < ?m" "?m \<le> length d" "?m \<le> r" using d rpos by simp_all
      have 4: "wf_buf ?buf1" by (intro wf_bufPop wf_bufPush less.prems(1))
      show ?thesis
        using 1 2 3 4 ds ce i by (intro exI [of _ d] exI [of _ "concat ds"] exI [of _ ?m] exI [of _ ?conn1] exI [of _ ?buf1]) simp
    qed
    then obtain A B m conn1 buf1 where
      rd: "read (ConLengthReader L r) conn buf
              = (Inr (take m A), ConLengthReader L (r - m), conn1, buf1)"
      and m: "0 < m" "m \<le> length A" "m \<le> r"
      and av: "content buf @ concat (incoming conn) = A @ B"
      and av1: "content buf1 @ concat (incoming conn1) = drop m A @ B"
      and st1: "wf_buf buf1" "list_all (\<lambda>c. c \<noteq> []) (incoming conn1)"
      by blast
    have lt: "r - m < r" using m rpos by simp
    have le: "r - m \<le> length (content buf1 @ concat (incoming conn1))"
      using less.prems(3) m unfolding av av1 by simp
    from less.IH [OF lt st1 le] obtain k cs conn' buf' where
      p: "pulls k (ConLengthReader L (r - m)) conn1 buf1 = (Inr cs, ConLengthReader L 0, conn', buf')"
      and c: "concat cs = take (r - m) (drop m A @ B)"
      and ne: "list_all (\<lambda>c. c \<noteq> []) cs"
      and rest: "content buf' @ concat (incoming conn') = drop (r - m) (drop m A @ B)"
      unfolding av1 by blast
    have P: "pulls (Suc k) (ConLengthReader L r) conn buf
               = (Inr (take m A # cs), ConLengthReader L 0, conn', buf')"
      by (rule pulls_Suc_ok [OF rd p])
    have C: "concat (take m A # cs) = take r (content buf @ concat (incoming conn))"
      unfolding av using c take_split [OF m(2,3), of B] by simp
    have N: "list_all (\<lambda>c. c \<noteq> []) (take m A # cs)"
      using ne m by auto
    have R: "content buf' @ concat (incoming conn') = drop r (content buf @ concat (incoming conn))"
      unfolding av using rest drop_split [OF m(2,3), of B] by simp
    show ?thesis using P C N R by blast
  qed
qed

section \<open>Properties of the framer and the driver\<close>

lemma find_sub_decomp:
  "find_sub pat s = Some i \<Longrightarrow> \<exists>pre post. s = pre @ pat @ post"
proof (induction s arbitrary: i)
  case Nil
  then show ?case by (auto split: if_splits)
next
  case (Cons c cs)
  show ?case
  proof (cases "take (length pat) (c # cs) = pat")
    case True
    then have "c # cs = [] @ pat @ drop (length pat) (c # cs)"
      by (metis append_Nil append_take_drop_id)
    then show ?thesis by blast
  next
    case False
    with Cons.prems obtain j where "find_sub pat cs = Some j" by auto
    from Cons.IH [OF this] obtain pre post where "cs = pre @ pat @ post" by blast
    then have "c # cs = (c # pre) @ pat @ post" by simp
    then show ?thesis by blast
  qed
qed

lemma indexOf_absent:
  "\<nexists>pre post. s = pre @ pat @ post \<Longrightarrow> indexOf s pat = - 1"
  using find_sub_decomp [of pat s] by (cases "find_sub pat s") (auto simp: indexOf_def)

text \<open>
  Claim C5. When the content of the buffer holds no \<open>CR LF CR LF\<close>: with 8192
  buffered bytes or more, \<open>cutMessage\<close> raises the error 413 and the driver stops with
  it on the connection as it was (no read was issued); with fewer, \<open>cutMessage\<close>
  returns \<open>null\<close> and raises nothing. The buffer is unchanged in both cases.
\<close>

theorem cutMessage_no_terminator:
  assumes "\<nexists>pre post. content buf = pre @ CRLF @ CRLF @ post"
  shows "(8192 \<le> length' buf \<longrightarrow>
            cutMessage buf = (Inl (HTTPError 413 ''header too large''), buf)
            \<and> serveLoop conn buf = (Inl (HTTPError 413 ''header too large''), conn, buf))
       \<and> (length' buf < 8192 \<longrightarrow> cutMessage buf = (Inr None, buf))"
proof -
  have "\<nexists>pre post. content buf = pre @ (CRLF @ CRLF) @ post" using assms by simp
  then have i: "indexOf (content buf) (CRLF @ CRLF) = - 1" by (rule indexOf_absent)
  have a: "8192 \<le> length' buf \<Longrightarrow> cutMessage buf = (Inl (HTTPError 413 ''header too large''), buf)"
    using i by (simp add: cutMessage_def Let_def kMaxHeaderLen_def)
  have b: "length' buf < 8192 \<Longrightarrow> cutMessage buf = (Inr None, buf)"
    using i by (simp add: cutMessage_def Let_def kMaxHeaderLen_def)
  have c: "8192 \<le> length' buf \<Longrightarrow> serveLoop conn buf = (Inl (HTTPError 413 ''header too large''), conn, buf)"
    using a by (subst serveLoop.simps) simp
  show ?thesis using a b c by blast
qed


theorem cutMessage_no_terminator_witness:
  "cutMessage \<lparr>data = replicate 8192 (CHR ''a''), length' = 8192\<rparr>
     = (Inl (HTTPError 413 ''header too large''), \<lparr>data = replicate 8192 (CHR ''a''), length' = 8192\<rparr>)
   \<and> serveLoop \<lparr>incoming = [''b''], reads = 0, written = []\<rparr>
         \<lparr>data = replicate 8192 (CHR ''a''), length' = 8192\<rparr>
     = (Inl (HTTPError 413 ''header too large''), \<lparr>incoming = [''b''], reads = 0, written = []\<rparr>,
        \<lparr>data = replicate 8192 (CHR ''a''), length' = 8192\<rparr>)
   \<and> cutMessage \<lparr>data = ''GET'', length' = 3\<rparr> = (Inr None, \<lparr>data = ''GET'', length' = 3\<rparr>)"
proof -
  let ?big = "\<lparr>data = replicate 8192 (CHR ''a''), length' = 8192\<rparr>"
  let ?small = "\<lparr>data = ''GET'', length' = 3\<rparr>"
  have h1: "\<nexists>pre post. content ?big = pre @ CRLF @ CRLF @ post"
  proof
    assume "\<exists>pre post. content ?big = pre @ CRLF @ CRLF @ post"
    then obtain pre post where e: "content ?big = pre @ CRLF @ CRLF @ post" by blast
    have "CHR 0x0D \<in> set (pre @ CRLF @ CRLF @ post)" by (simp add: CRLF_def)
    then have "CHR 0x0D \<in> set (content ?big)" using e by simp
    then show False by (simp add: content_def)
  qed
  have h2: "\<nexists>pre post. content ?small = pre @ CRLF @ CRLF @ post"
  proof
    assume "\<exists>pre post. content ?small = pre @ CRLF @ CRLF @ post"
    then obtain pre post where e: "content ?small = pre @ CRLF @ CRLF @ post" by blast
    have "CHR 0x0D \<in> set (pre @ CRLF @ CRLF @ post)" by (simp add: CRLF_def)
    then have "CHR 0x0D \<in> set (content ?small)" using e by simp
    then show False by (simp add: content_def)
  qed
  show ?thesis
    using cutMessage_no_terminator [OF h1, of "\<lparr>incoming = [''b''], reads = 0, written = []\<rparr>"]
      cutMessage_no_terminator [OF h2, of "\<lparr>incoming = [''b''], reads = 0, written = []\<rparr>"]
    by simp
qed

section \<open>Properties of the body reader of a request\<close>

text \<open>The equations that evaluate the string functions on the requests of the examples.\<close>

lemmas eval_defs = js_def latin1_def isWhiteSpace_def trim_def indexOf_def toLowerCase_def
  Buffer_from_def utf8_unit_def char_of_eq_iff parseDec_def parseInt10_def isDigit_def
  readerFromReq_def Let_def readerFromConLength_def

text \<open>
  Claim C3 as stated fails: a \<open>POST\<close> request with \<open>Content-Length: 5\<close> and
  \<open>Transfer-Encoding: chunked\<close> gets a length-bounded reader of 5 bytes, not the
  error 501.
\<close>

theorem readerFromReq_chunked_counterexample:
  "method' \<lparr>method' = js ''POST'', uri = ''/echo'', version = js ''1.1'',
       headers = [''Content-Length: 5'', ''Transfer-Encoding: chunked'']\<rparr> \<noteq> js ''GET''
   \<and> fieldGet [''Content-Length: 5'', ''Transfer-Encoding: chunked''] (js ''Transfer-Encoding'')
       = Some ''chunked''
   \<and> readerFromReq \<lparr>method' = js ''POST'', uri = ''/echo'', version = js ''1.1'',
       headers = [''Content-Length: 5'', ''Transfer-Encoding: chunked'']\<rparr>
       = Inr (ConLengthReader 5 5)"
  by (simp add: eval_defs)

text \<open>
  Claim C3, amended. For a request whose method is neither \<open>GET\<close> nor \<open>HEAD\<close> and
  whose \<open>Transfer-Encoding\<close> field is exactly \<open>chunked\<close>, the factory raises 501
  when there is no \<open>Content-Length\<close> field or its value is read as a negative
  number; a \<open>Content-Length\<close> read as \<open>n \<ge> 0\<close> comes first and gives the
  length-bounded reader of \<open>n\<close> bytes, and one that is read as no number raises 400.
\<close>

theorem readerFromReq_chunked:
  assumes "method' req \<noteq> js ''GET''" and "method' req \<noteq> js ''HEAD''"
    and "fieldGet (headers req) (js ''Transfer-Encoding'') = Some ''chunked''"
  shows "readerFromReq req =
     (case fieldGet (headers req) (js ''Content-Length'') of
        None \<Rightarrow> Inl (HTTPError 501 ''chunked not implemented'')
      | Some cl \<Rightarrow>
          (case parseDec (latin1 cl) of
             None \<Rightarrow> Inl (HTTPError 400 ''bad Content-Length'')
           | Some n \<Rightarrow>
               if 0 \<le> n then Inr (readerFromConLength (nat n))
               else Inl (HTTPError 501 ''chunked not implemented'')))"
  using assms by (simp add: readerFromReq_def Let_def split: option.splits)

theorem readerFromReq_chunked_witness:
  "readerFromReq \<lparr>method' = js ''POST'', uri = ''/echo'', version = js ''1.1'',
       headers = [''Transfer-Encoding: chunked'']\<rparr>
     = Inl (HTTPError 501 ''chunked not implemented'')"
proof -
  let ?req = "\<lparr>method' = js ''POST'', uri = ''/echo'', version = js ''1.1'',
       headers = [''Transfer-Encoding: chunked'']\<rparr>"
  have a: "method' ?req \<noteq> js ''GET''" by (simp add: eval_defs)
  have b: "method' ?req \<noteq> js ''HEAD''" by (simp add: eval_defs)
  have c: "fieldGet (headers ?req) (js ''Transfer-Encoding'') = Some ''chunked''" by (simp add: eval_defs)
  have d: "fieldGet (headers ?req) (js ''Content-Length'') = None" by (simp add: eval_defs)
  show ?thesis using readerFromReq_chunked [OF a b c] d by simp
qed

text \<open>
  Claim C4 as stated fails: \<open>Content-Length: 12abc\<close> is read as 12 and accepted,
  and \<open>Content-Length: -5\<close> raises 501 on a \<open>POST\<close> request and is replaced by
  the length 0 on a \<open>GET\<close> request; none of them raises 400.
\<close>

theorem readerFromReq_bad_length_counterexample:
  "readerFromReq \<lparr>method' = js ''POST'', uri = ''/echo'', version = js ''1.1'',
       headers = [''Content-Length: 12abc'']\<rparr> = Inr (ConLengthReader 12 12)
   \<and> readerFromReq \<lparr>method' = js ''POST'', uri = ''/echo'', version = js ''1.1'',
       headers = [''Content-Length: -5'']\<rparr> = Inl (HTTPError 501 ''unknown body type'')
   \<and> readerFromReq \<lparr>method' = js ''GET'', uri = ''/'', version = js ''1.1'',
       headers = [''Content-Length: -5'']\<rparr> = Inr (ConLengthReader 0 0)"
  by (simp add: eval_defs)

lemma parseInt10_None:
  assumes "\<nexists>ws sign ds rest. str = ws @ sign @ ds @ rest \<and> list_all isWhiteSpace ws
             \<and> (sign = [] \<or> sign = [43] \<or> sign = [45]) \<and> ds \<noteq> [] \<and> list_all isDigit ds"
  shows "parseInt10 str = None"
proof (rule ccontr)
  define ws where "ws = takeWhile isWhiteSpace str"
  define s where "s = dropWhile isWhiteSpace str"
  define s1 where "s1 = (if s \<noteq> [] \<and> (hd s = 43 \<or> hd s = 45) then tl s else s)"
  define sign where "sign = (if s \<noteq> [] \<and> (hd s = 43 \<or> hd s = 45) then [hd s] else [])"
  define ds where "ds = takeWhile isDigit s1"
  define rest where "rest = dropWhile isDigit s1"
  assume "parseInt10 str \<noteq> None"
  moreover have "parseInt10 str =
      (if ds = [] then None
       else Some ((if s \<noteq> [] \<and> hd s = 45 then - 1 else 1)
                    * int (foldl (\<lambda>a d. 10 * a + (d - 48)) 0 ds)))"
    unfolding parseInt10_def Let_def ds_def s1_def s_def by (rule refl)
  ultimately have nz: "ds \<noteq> []" by auto
  have 1: "str = ws @ s" unfolding ws_def s_def by simp
  have 2: "s = sign @ s1" unfolding sign_def s1_def by simp
  have 3: "s1 = ds @ rest" unfolding ds_def rest_def by simp
  have 4: "list_all isWhiteSpace ws"
    unfolding ws_def list_all_iff by (blast dest: set_takeWhileD)
  have 5: "list_all isDigit ds"
    unfolding ds_def list_all_iff by (blast dest: set_takeWhileD)
  have 6: "sign = [] \<or> sign = [43] \<or> sign = [45]" unfolding sign_def by auto
  have "str = ws @ sign @ ds @ rest" unfolding 1 2 3 by simp
  with assms nz 4 5 6 show False by blast
qed

text \<open>
  Claim C4, amended. A request with a \<open>Content-Length\<close> field whose value does not
  consist of white space (possibly none), then at most one sign, then at least one
  decimal digit, then anything, makes the factory raise 400.
\<close>

theorem readerFromReq_bad_length:
  assumes "fieldGet (headers req) (js ''Content-Length'') = Some cl"
    and "\<nexists>ws sign ds rest. latin1 cl = ws @ sign @ ds @ rest \<and> list_all isWhiteSpace ws
             \<and> (sign = [] \<or> sign = [43] \<or> sign = [45]) \<and> ds \<noteq> [] \<and> list_all isDigit ds"
  shows "readerFromReq req = Inl (HTTPError 400 ''bad Content-Length'')"
proof -
  have "parseDec (latin1 cl) = None"
    unfolding parseDec_def by (rule parseInt10_None [OF assms(2)])
  then show ?thesis using assms(1) by (simp add: readerFromReq_def)
qed

theorem readerFromReq_bad_length_witness:
  "readerFromReq \<lparr>method' = js ''POST'', uri = ''/echo'', version = js ''1.1'',
       headers = [''Content-Length: abc'']\<rparr> = Inl (HTTPError 400 ''bad Content-Length'')"
proof -
  let ?req = "\<lparr>method' = js ''POST'', uri = ''/echo'', version = js ''1.1'',
       headers = [''Content-Length: abc'']\<rparr>"
  have a: "fieldGet (headers ?req) (js ''Content-Length'') = Some ''abc''" by (simp add: eval_defs)
  have b: "\<nexists>ws sign ds rest. latin1 ''abc'' = ws @ sign @ ds @ rest \<and> list_all isWhiteSpace ws
             \<and> (sign = [] \<or> sign = [43] \<or> sign = [45]) \<and> ds \<noteq> [] \<and> list_all isDigit ds"
  proof
    assume "\<exists>ws sign ds rest. latin1 ''abc'' = ws @ sign @ ds @ rest \<and> list_all isWhiteSpace ws
             \<and> (sign = [] \<or> sign = [43] \<or> sign = [45]) \<and> ds \<noteq> [] \<and> list_all isDigit ds"
    then obtain ws sign ds rest where e: "latin1 ''abc'' = ws @ sign @ ds @ rest"
      and d: "ds \<noteq> []" "list_all isDigit ds" by blast
    from d obtain x where x: "x \<in> set ds" "isDigit x" by (cases ds) auto
    then have "x \<in> set (latin1 ''abc'')" unfolding e by simp
    then show False using x(2) by (auto simp: latin1_def isDigit_def)
  qed
  show ?thesis by (rule readerFromReq_bad_length [OF a b])
qed

text \<open>
  Claim C8 as stated fails: a \<open>GET\<close> request with \<open>Content-Length: abc\<close> declares
  neither a positive length nor the chunked encoding, and the factory raises 400
  instead of returning a reader of length 0.
\<close>

theorem readerFromReq_no_body_counterexample:
  "method' \<lparr>method' = js ''GET'', uri = ''/'', version = js ''1.1'',
       headers = [''Content-Length: abc'']\<rparr> = js ''GET''
   \<and> fieldGet [''Content-Length: abc''] (js ''Transfer-Encoding'') = None
   \<and> map_option (\<lambda>cl. parseDec (latin1 cl)) (fieldGet [''Content-Length: abc''] (js ''Content-Length''))
       = Some None
   \<and> readerFromReq \<lparr>method' = js ''GET'', uri = ''/'', version = js ''1.1'',
       headers = [''Content-Length: abc'']\<rparr> = Inl (HTTPError 400 ''bad Content-Length'')"
  by (simp add: eval_defs)

text \<open>
  Claim C8, amended. For a request whose method is \<open>GET\<close> or \<open>HEAD\<close>, the
  factory raises 400 when a \<open>Content-Length\<close> field is read as no number, and when
  the request declares a positive \<open>Content-Length\<close> or the chunked encoding;
  otherwise it returns the length-bounded reader of length 0. The first pull of that
  reader returns the empty chunk and leaves the connection (its count of reads
  included) and the buffer as they are.
\<close>

theorem readerFromReq_no_body:
  assumes "method' req = js ''GET'' \<or> method' req = js ''HEAD''"
  shows "readerFromReq req =
     (case fieldGet (headers req) (js ''Content-Length'') of
        None \<Rightarrow>
          if fieldGet (headers req) (js ''Transfer-Encoding'') = Some ''chunked''
          then Inl (HTTPError 400 ''HTTP body not allowed'')
          else Inr (readerFromConLength 0)
      | Some cl \<Rightarrow>
          (case parseDec (latin1 cl) of
             None \<Rightarrow> Inl (HTTPError 400 ''bad Content-Length'')
           | Some n \<Rightarrow>
               if 0 < n \<or> fieldGet (headers req) (js ''Transfer-Encoding'') = Some ''chunked''
               then Inl (HTTPError 400 ''HTTP body not allowed'')
               else Inr (readerFromConLength 0)))
     \<and> read (readerFromConLength 0) conn buf = (Inr [], readerFromConLength 0, conn, buf)"
  using assms
  by (auto simp: readerFromReq_def Let_def readerFromConLength_def split: option.splits)

theorem readerFromReq_no_body_witness:
  "readerFromReq \<lparr>method' = js ''GET'', uri = ''/'', version = js ''1.1'', headers = [''Host: x'']\<rparr>
     = Inr (readerFromConLength 0)
   \<and> readerFromReq \<lparr>method' = js ''GET'', uri = ''/'', version = js ''1.1'',
        headers = [''Content-Length: 5'']\<rparr> = Inl (HTTPError 400 ''HTTP body not allowed'')"
proof -
  let ?r1 = "\<lparr>method' = js ''GET'', uri = ''/'', version = js ''1.1'', headers = [''Host: x'']\<rparr>"
  let ?r2 = "\<lparr>method' = js ''GET'', uri = ''/'', version = js ''1.1'', headers = [''Content-Length: 5'']\<rparr>"
  have m1: "method' ?r1 = js ''GET'' \<or> method' ?r1 = js ''HEAD''" by simp
  have m2: "method' ?r2 = js ''GET'' \<or> method' ?r2 = js ''HEAD''" by simp
  have a: "fieldGet (headers ?r1) (js ''Content-Length'') = None" by (simp add: eval_defs)
  have b: "fieldGet (headers ?r1) (js ''Transfer-Encoding'') = None" by (simp add: eval_defs)
  have c: "fieldGet (headers ?r2) (js ''Content-Length'') = Some ''5''" by (simp add: eval_defs)
  have d: "parseDec (latin1 ''5'') = Some 5" by (simp add: eval_defs)
  show ?thesis
    using readerFromReq_no_body [OF m1] readerFromReq_no_body [OF m2] a b c d by simp
qed

text \<open>
  Claim C6. A request whose method is neither \<open>GET\<close> nor \<open>HEAD\<close> and whose
  \<open>Content-Length\<close> field is read as \<open>N \<ge> 0\<close> gets the length-bounded reader of
  declared length \<open>N\<close>. Let the bytes available to it be the content of the shared
  buffer followed by the chunks the connection delivers, however they are cut into
  non-empty chunks, and let there be at least \<open>N\<close> of them. Then some number of
  successive pulls returns non-empty chunks whose concatenation is the first \<open>N\<close>
  available bytes; every further pull returns the empty chunk and changes nothing; the
  bytes after the first \<open>N\<close> stay available; and the \<open>length\<close> field is \<open>N\<close>
  after any number of pulls.
\<close>

theorem readerFromConLength_pulls:
  assumes "method' req \<noteq> js ''GET''" and "method' req \<noteq> js ''HEAD''"
    and "fieldGet (headers req) (js ''Content-Length'') = Some cl"
    and "parseDec (latin1 cl) = Some (int N)"
    and "wf_buf buf" and "list_all (\<lambda>c. c \<noteq> []) (incoming conn)"
    and "N \<le> length (content buf @ concat (incoming conn))"
  shows "readerFromReq req = Inr (readerFromConLength N)
       \<and> (\<exists>k cs rd' conn' buf'.
           pulls k (readerFromConLength N) conn buf = (Inr cs, rd', conn', buf')
           \<and> concat cs = take N (content buf @ concat (incoming conn))
           \<and> length (concat cs) = N
           \<and> list_all (\<lambda>c. c \<noteq> []) cs
           \<and> (\<forall>m. pulls m rd' conn' buf' = (Inr (replicate m []), rd', conn', buf'))
           \<and> content buf' @ concat (incoming conn')
               = drop N (content buf @ concat (incoming conn))
           \<and> (\<forall>j. length_r (fst (snd (pulls j (readerFromConLength N) conn buf))) = N))"
proof -
  have r: "readerFromReq req = Inr (readerFromConLength N)"
    using assms(1-4) by (simp add: readerFromReq_def Let_def)
  from pulls_ConLength [OF assms(5-7), of N] obtain k cs conn' buf' where
    p: "pulls k (ConLengthReader N N) conn buf = (Inr cs, ConLengthReader N 0, conn', buf')"
    and c: "concat cs = take N (content buf @ concat (incoming conn))"
    and ne: "list_all (\<lambda>c. c \<noteq> []) cs"
    and rest: "content buf' @ concat (incoming conn')
               = drop N (content buf @ concat (incoming conn))"
    by blast
  have l: "length (concat cs) = N" unfolding c using assms(7) by simp
  have d: "\<forall>m. pulls m (ConLengthReader N 0) conn' buf'
             = (Inr (replicate m []), ConLengthReader N 0, conn', buf')"
    by (simp add: pulls_done)
  have f: "\<forall>j. length_r (fst (snd (pulls j (readerFromConLength N) conn buf))) = N"
    by (simp add: length_r_pulls readerFromConLength_def)
  have "\<exists>k cs rd' conn' buf'.
           pulls k (readerFromConLength N) conn buf = (Inr cs, rd', conn', buf')
           \<and> concat cs = take N (content buf @ concat (incoming conn))
           \<and> length (concat cs) = N
           \<and> list_all (\<lambda>c. c \<noteq> []) cs
           \<and> (\<forall>m. pulls m rd' conn' buf' = (Inr (replicate m []), rd', conn', buf'))
           \<and> content buf' @ concat (incoming conn')
               = drop N (content buf @ concat (incoming conn))
           \<and> (\<forall>j. length_r (fst (snd (pulls j (readerFromConLength N) conn buf))) = N)"
    using p c l ne d rest f unfolding readerFromConLength_def by blast
  with r show ?thesis by blast
qed

theorem readerFromConLength_pulls_witness:
  "readerFromReq \<lparr>method' = js ''POST'', uri = ''/echo'', version = js ''1.1'',
       headers = [''Content-Length: 5'']\<rparr> = Inr (readerFromConLength 5)
   \<and> (\<exists>k cs rd' conn' buf'.
     pulls k (readerFromConLength 5) \<lparr>incoming = [''cd'', ''efg''], reads = 0, written = []\<rparr>
         \<lparr>data = ''ab'', length' = 2\<rparr> = (Inr cs, rd', conn', buf')
     \<and> concat cs = ''abcde''
     \<and> content buf' @ concat (incoming conn') = ''fg'')"
proof -
  let ?req = "\<lparr>method' = js ''POST'', uri = ''/echo'', version = js ''1.1'',
       headers = [''Content-Length: 5'']\<rparr>"
  let ?conn = "\<lparr>incoming = [''cd'', ''efg''], reads = 0, written = []\<rparr>"
  let ?buf = "\<lparr>data = ''ab'', length' = 2\<rparr>"
  have m1: "method' ?req \<noteq> js ''GET''" by (simp add: js_def)
  have m2: "method' ?req \<noteq> js ''HEAD''" by (simp add: js_def)
  have f: "fieldGet (headers ?req) (js ''Content-Length'') = Some ''5''"
    by (simp add: eval_defs)
  have pd: "parseDec (latin1 ''5'') = Some (int 5)" by (simp add: eval_defs)
  have w: "wf_buf ?buf" by (simp add: wf_buf_def)
  have a: "list_all (\<lambda>c. c \<noteq> []) (incoming ?conn)" by simp
  have n: "5 \<le> length (content ?buf @ concat (incoming ?conn))" by (simp add: content_def)
  from readerFromConLength_pulls [OF m1 m2 f pd w a n] obtain k cs rd' conn' buf' where
    "readerFromReq ?req = Inr (readerFromConLength 5)"
    "pulls k (readerFromConLength 5) ?conn ?buf = (Inr cs, rd', conn', buf')"
    "concat cs = take 5 (content ?buf @ concat (incoming ?conn))"
    "content buf' @ concat (incoming conn') = drop 5 (content ?buf @ concat (incoming ?conn))"
    by blast
  then have "readerFromReq ?req = Inr (readerFromConLength 5)
     \<and> pulls k (readerFromConLength 5) ?conn ?buf = (Inr cs, rd', conn', buf')
     \<and> concat cs = ''abcde'' \<and> content buf' @ concat (incoming conn') = ''fg''"
    by (simp add: content_def)
  then show ?thesis by blast
qed

section \<open>Properties of the header parser\<close>

lemma split_js_single:
  "split_js [x] s \<noteq> []
   \<and> s = concat (map (\<lambda>p. p @ [x]) (butlast (split_js [x] s))) @ last (split_js [x] s)
   \<and> list_all (\<lambda>p. x \<notin> set p) (split_js [x] s)"
proof (induction s)
  case Nil
  show ?case by simp
next
  case (Cons c cs)
  obtain p ps where sp: "split_js [x] cs = p # ps"
    using Cons.IH by (cases "split_js [x] cs") auto
  have cs: "cs = concat (map (\<lambda>p. p @ [x]) (butlast (p # ps))) @ last (p # ps)"
    and nx: "list_all (\<lambda>p. x \<notin> set p) (p # ps)"
    using Cons.IH unfolding sp by blast+
  show ?case
  proof (cases "c = x")
    case True
    then have e: "split_js [x] (c # cs) = [] # p # ps" by (simp add: sp)
    show ?thesis unfolding e using cs nx True by simp
  next
    case False
    then have e: "split_js [x] (c # cs) = (c # p) # ps" by (simp add: sp)
    show ?thesis
    proof (cases ps)
      case Nil
      then show ?thesis unfolding e using cs nx False by simp
    next
      case (Cons q qs)
      then show ?thesis unfolding e using cs nx False by simp
    qed
  qed
qed

lemma split_js_three:
  assumes "split_js [x] s = [a, b, c]"
  shows "s = a @ [x] @ b @ [x] @ c \<and> x \<notin> set a \<and> x \<notin> set b \<and> x \<notin> set c"
  using split_js_single [of x s] unfolding assms by simp

lemma parseRequestLine_Inr:
  assumes "parseRequestLine line = Inr r"
  shows "\<exists>m u v. trim (toString line) = m @ [32] @ u @ [32] @ v
           \<and> 32 \<notin> set m \<and> 32 \<notin> set u \<and> 32 \<notin> set v \<and> take 5 v = js ''HTTP/''"
proof -
  let ?parts = "split_js [32] (trim (toString line))"
  have l: "length ?parts = 3" and sw: "startsWith (?parts ! 2) (js ''HTTP/'')"
    using assms by (auto simp: parseRequestLine_def Let_def split: if_splits)
  from l obtain a b c where p: "?parts = [a, b, c]"
    by (auto simp: numeral_3_eq_3 length_Suc_conv)
  have l5: "length (js ''HTTP/'') = 5" by (simp add: js_def)
  have "take 5 c = js ''HTTP/''" using sw unfolding p startsWith_def l5 by simp
  then show ?thesis using split_js_three [OF p] by blast
qed

lemma parseRequestLine_Inl:
  "parseRequestLine line = Inl e \<Longrightarrow> \<exists>msg. e = HTTPError 400 msg"
  by (auto simp: parseRequestLine_def Let_def split: if_splits)

lemma find_sub_single:
  "find_sub [x] s = (if x \<in> set s then Some (length (takeWhile (\<lambda>u. u \<noteq> x) s)) else None)"
  by (induction s) auto

lemma take_length_takeWhile: "take (length (takeWhile P xs)) xs = takeWhile P xs"
  by (induction xs) auto

lemma validateHeader_good:
  assumes "validateHeader l" and "h = toString l"
  shows "58 \<in> set h \<and> hd h \<noteq> 58 \<and> takeWhile (\<lambda>u. u \<noteq> 58) h @ [58] \<noteq> h
         \<and> list_all tchar (takeWhile (\<lambda>u. u \<noteq> 58) h)"
proof -
  let ?n = "length (takeWhile (\<lambda>u. u \<noteq> 58) h)"
  have a: "58 \<in> set h"
    using assms by (auto simp: validateHeader_def Let_def indexOf_def find_sub_single split: if_splits)
  then have i: "indexOf h [58] = int ?n" by (simp add: indexOf_def find_sub_single)
  have pos: "0 < ?n" and nl: "int ?n \<noteq> int (length h) - 1"
    and tc: "list_all tchar (take ?n h)"
    using assms i by (auto simp: validateHeader_def Let_def split: if_splits)
  have b: "hd h \<noteq> 58" using pos by (cases h) (auto split: if_splits)
  have c: "takeWhile (\<lambda>u. u \<noteq> 58) h @ [58] \<noteq> h"
  proof
    assume "takeWhile (\<lambda>u. u \<noteq> 58) h @ [58] = h"
    then have "length h = Suc ?n" by (metis length_append_singleton)
    then show False using nl by simp
  qed
  show ?thesis using a b c tc by (simp add: take_length_takeWhile)
qed

lemma parseHeaders_Inr:
  "parseHeaders ls hs = Inr r \<Longrightarrow> list_all validateHeader ls"
  by (induction ls arbitrary: hs) (auto split: if_splits)

lemma parseHeaders_Inl:
  "parseHeaders ls hs = Inl e \<Longrightarrow> e = HTTPError 400 ''bad field''"
  by (induction ls arbitrary: hs) (auto split: if_splits)

text \<open>
  Claim C7. Let the request line be the first line of the header block as
  \<open>parseRequestLine\<close> reads it (decoded and trimmed), and the header lines the lines
  \<open>1 .. lines.length - 2\<close> as \<open>validateHeader\<close> reads them. Parsing raises an error
  of status 400 whenever the request line is not made of three pieces free of spaces,
  separated by single spaces, the third of which begins with \<open>HTTP/\<close>; and whenever
  some header line has no colon, or begins with its colon, or ends with its first
  colon, or has before its first colon a character outside the token class.
\<close>

theorem parseHTTPReq_bad_400:
  assumes "rl = trim (toString (hd (splitLines d)))"
    and "hs = map toString (butlast (tl (splitLines d)))"
    and "(\<nexists>m u v. rl = m @ [32] @ u @ [32] @ v
              \<and> 32 \<notin> set m \<and> 32 \<notin> set u \<and> 32 \<notin> set v \<and> take 5 v = js ''HTTP/'')
         \<or> (\<exists>h \<in> set hs. 58 \<notin> set h \<or> hd h = 58 \<or> takeWhile (\<lambda>u. u \<noteq> 58) h @ [58] = h
                \<or> (\<exists>u \<in> set (takeWhile (\<lambda>u. u \<noteq> 58) h). \<not> tchar u))"
  shows "\<exists>msg. parseHTTPReq d = Inl (HTTPError 400 msg)"
proof (cases "parseRequestLine (hd (splitLines d))")
  case (Inl e)
  then show ?thesis
    using parseRequestLine_Inl [OF Inl] by (auto simp: parseHTTPReq_def Let_def)
next
  case (Inr r)
  obtain m u v where r: "r = (m, u, v)" by (cases r) auto
  from parseRequestLine_Inr [OF Inr] assms(1,3)
  obtain h where h: "h \<in> set hs"
    and bad: "58 \<notin> set h \<or> hd h = 58 \<or> takeWhile (\<lambda>u. u \<noteq> 58) h @ [58] = h
                \<or> (\<exists>u \<in> set (takeWhile (\<lambda>u. u \<noteq> 58) h). \<not> tchar u)"
    by blast
  from h obtain l where l: "l \<in> set (butlast (tl (splitLines d)))" "h = toString l"
    unfolding assms(2) by auto
  have nv: "\<not> validateHeader l"
  proof
    assume "validateHeader l"
    from validateHeader_good [OF this l(2)] bad show False
      by (auto simp: list_all_iff)
  qed
  show ?thesis
  proof (cases "parseHeaders (butlast (tl (splitLines d))) []")
    case pl: (Inl e)
    show ?thesis
      using Inr r pl parseHeaders_Inl [OF pl] by (simp add: parseHTTPReq_def Let_def)
  next
    case pr: (Inr x)
    from parseHeaders_Inr [OF pr] l(1) nv show ?thesis by (auto simp: list_all_iff)
  qed
qed

theorem parseHTTPReq_bad_400_witness:
  "\<exists>msg. parseHTTPReq (''GET / HTTP/1.1'' @ CRLF @ ''Host'' @ CRLF @ ''A: b'' @ CRLF)
          = Inl (HTTPError 400 msg)"
proof -
  let ?d = "''GET / HTTP/1.1'' @ CRLF @ ''Host'' @ CRLF @ ''A: b'' @ CRLF"
  have sl: "splitLines ?d = [''GET / HTTP/1.1'', ''Host'', ''A: b'', []]"
    by (simp add: splitLines_def toString_def CRLF_def Buffer_from_def utf8_unit_def
        char_of_eq_iff)
  have "58 \<notin> set (toString ''Host'')" by (simp add: toString_def)
  moreover have "toString ''Host'' \<in> set (map toString (butlast (tl (splitLines ?d))))"
    unfolding sl by simp
  ultimately have bad:
    "(\<nexists>m u v. trim (toString (hd (splitLines ?d))) = m @ [32] @ u @ [32] @ v
              \<and> 32 \<notin> set m \<and> 32 \<notin> set u \<and> 32 \<notin> set v \<and> take 5 v = js ''HTTP/'')
     \<or> (\<exists>h \<in> set (map toString (butlast (tl (splitLines ?d)))).
            58 \<notin> set h \<or> hd h = 58 \<or> takeWhile (\<lambda>u. u \<noteq> 58) h @ [58] = h
            \<or> (\<exists>u \<in> set (takeWhile (\<lambda>u. u \<noteq> 58) h). \<not> tchar u))"
    by blast
  show ?thesis by (rule parseHTTPReq_bad_400 [OF refl refl bad])
qed

section \<open>The driver and well-formed requests\<close>

lemma utf8_from_ascii:
  "list_all (\<lambda>b. b < 128) T \<Longrightarrow> utf8_from 0 cp lo hi T = T"
  by (induction T arbitrary: cp lo hi) auto

lemma utf8_from_flush:
  assumes "128 \<le> lo" and "list_all (\<lambda>b. b < 128) T" and "T \<noteq> []"
  shows "utf8_from need cp lo hi T = (if need = 0 then [] else [65533]) @ T"
proof -
  from assms(3) obtain t T' where T: "T = t # T'" by (cases T) auto
  then have t: "t < 128" and T': "list_all (\<lambda>b. b < 128) T'" using assms(2) by auto
  have "\<not> lo \<le> t" using t assms(1) by simp
  then show ?thesis unfolding T using t by (simp add: utf8_from_ascii [OF T'])
qed

lemma utf8_from_append_ascii:
  assumes "list_all (\<lambda>b. b < 128) T" and "T \<noteq> []"
  shows "128 \<le> lo \<Longrightarrow> utf8_from need cp lo hi (bs @ T) = utf8_from need cp lo hi bs @ T"
proof (induction bs arbitrary: need cp lo hi)
  case Nil
  show ?case using utf8_from_flush [OF Nil assms] by simp
next
  case (Cons b bs)
  have ih: "\<And>need cp lo hi. 128 \<le> lo \<Longrightarrow>
      utf8_from need cp lo hi (bs @ T) = utf8_from need cp lo hi bs @ T"
    by (rule Cons.IH)
  show ?case by (simp add: ih)
qed

lemma toString_terminated:
  "toString (X @ CRLF @ CRLF) = toString X @ [13, 10, 13, 10]"
proof -
  have "utf8_from 0 0 128 191 (map of_char X @ [13, 10, 13, 10])
          = utf8_from 0 0 128 191 (map of_char X) @ [13, 10, 13, 10]"
    by (rule utf8_from_append_ascii) simp_all
  then show ?thesis by (simp add: toString_def CRLF_def)
qed

lemma split_js_terminated:
  "\<exists>ps. ps \<noteq> [] \<and> split_js [13, 10] (S @ [13, 10, 13, 10]) = ps @ [[], []]"
proof (induction S rule: length_induct)
  case (1 S)
  show ?case
  proof (cases S)
    case Nil
    have "split_js [13, 10] ([] @ [13, 10, 13, 10]) = [[]] @ [[], []]" by simp
    then show ?thesis unfolding Nil by blast
  next
    case (Cons c cs)
    show ?thesis
    proof (cases "take 2 (c # cs @ [13, 10, 13, 10]) = [13, 10]")
      case True
      then have c: "c = 13" by simp
      from True obtain cs' where cs: "cs = 10 # cs'" by (cases cs) auto
      have "length cs' < length S" unfolding Cons cs by simp
      with "1.IH" obtain ps where ps: "ps \<noteq> []"
        "split_js [13, 10] (cs' @ [13, 10, 13, 10]) = ps @ [[], []]" by blast
      have "split_js [13, 10] (S @ [13, 10, 13, 10]) = ([] # ps) @ [[], []]"
        unfolding Cons c cs using ps(2) by simp
      then show ?thesis by blast
    next
      case False
      have "length cs < length S" unfolding Cons by simp
      with "1.IH" obtain ps where ps: "ps \<noteq> []"
        "split_js [13, 10] (cs @ [13, 10, 13, 10]) = ps @ [[], []]" by blast
      from ps(1) obtain p pr where p: "ps = p # pr" by (cases ps) auto
      have "split_js [13, 10] (S @ [13, 10, 13, 10]) = ((c # p) # pr) @ [[], []]"
        unfolding Cons using False ps(2) p by simp
      then show ?thesis by blast
    qed
  qed
qed

lemma validateHeader_empty: "\<not> validateHeader []"
  by (simp add: validateHeader_def toString_def indexOf_def)

lemma parseHeaders_empty_line:
  "parseHeaders (ls @ [[]]) hs = Inl (HTTPError 400 ''bad field'')"
  by (induction ls arbitrary: hs) (simp_all add: validateHeader_empty)

lemma Buffer_from_empty: "Buffer_from [] = []"
  by (simp add: Buffer_from_def)

lemma parseHTTPReq_terminated:
  "\<exists>msg. parseHTTPReq (X @ CRLF @ CRLF) = Inl (HTTPError 400 msg)"
proof -
  from split_js_terminated [of "toString X"] obtain p ps where
    sp: "split_js [13, 10] (toString X @ [13, 10, 13, 10]) = (p # ps) @ [[], []]"
    by (metis neq_Nil_conv)
  have lines: "splitLines (X @ CRLF @ CRLF)
      = Buffer_from p # (map Buffer_from ps @ [[]]) @ [[]]"
    by (simp add: splitLines_def toString_terminated sp Buffer_from_empty)
  have hs: "butlast (tl (splitLines (X @ CRLF @ CRLF))) = map Buffer_from ps @ [[]]"
    unfolding lines by (simp add: butlast_append)
  have hd: "hd (splitLines (X @ CRLF @ CRLF)) = Buffer_from p"
    unfolding lines by simp
  show ?thesis
  proof (cases "parseRequestLine (Buffer_from p)")
    case (Inl e)
    then show ?thesis
      using parseRequestLine_Inl [OF Inl] by (auto simp: parseHTTPReq_def Let_def hd)
  next
    case (Inr r)
    then show ?thesis
      by (cases r) (simp add: parseHTTPReq_def Let_def hd hs parseHeaders_empty_line)
  qed
qed

lemma find_sub_take:
  "find_sub pat s = Some i \<Longrightarrow> take (i + length pat) s = take i s @ pat"
proof (induction s arbitrary: i)
  case Nil
  then show ?case by (auto split: if_splits)
next
  case (Cons c cs)
  show ?case
  proof (cases "take (length pat) (c # cs) = pat")
    case True
    then show ?thesis using Cons.prems by simp
  next
    case False
    with Cons.prems obtain j where j: "find_sub pat cs = Some j" "i = Suc j" by auto
    show ?thesis using Cons.IH [OF j(1)] j(2) by simp
  qed
qed

text \<open>
  The framer never returns a request. \<open>split\<close> cuts the header block, which ends
  with \<open>CR LF CR LF\<close>, into lines of which the last two are empty; the loop of
  \<open>parseHTTPReq\<close> leaves out the last one only and hands the other to
  \<open>validateHeader\<close>, which refuses the empty line. So \<open>cutMessage\<close> returns
  \<open>null\<close> or raises an error, and leaves the buffer as it is.
\<close>

lemma cutMessage_never_frames:
  "cutMessage buf = (Inr None, buf) \<or> (\<exists>c msg. cutMessage buf = (Inl (HTTPError c msg), buf))"
proof (cases "find_sub (CRLF @ CRLF) (content buf)")
  case None
  then show ?thesis by (simp add: cutMessage_def Let_def indexOf_def)
next
  case (Some i)
  have l4: "length (CRLF @ CRLF) = 4" by (simp add: CRLF_def)
  have t: "take (i + 4) (content buf) = take i (content buf) @ CRLF @ CRLF"
    using find_sub_take [OF Some, unfolded l4] by simp
  from parseHTTPReq_terminated [of "take i (content buf)"] obtain msg where
    "parseHTTPReq (take (i + 4) (content buf)) = Inl (HTTPError 400 msg)"
    unfolding t by blast
  then have "cutMessage buf = (Inl (HTTPError 400 msg), buf)"
    using Some by (simp add: cutMessage_def Let_def indexOf_def)
  then show ?thesis by blast
qed

text \<open>
  On a connection that delivers a well-formed \<open>POST /echo\<close> request with its body,
  \<open>serveClient\<close> stops with the error 400 of the framer: the branch of the loop
  that builds the body reader and calls the handler is not reached.
\<close>

lemma serveClient_well_formed_request:
  "fst (serveClient
        \<lparr>incoming = [''POST /echo HTTP/1.1'' @ CRLF @ ''Content-Length: 2'' @ CRLF @ CRLF @ ''hi''],
         reads = 0, written = []\<rparr>) = Inl (HTTPError 400 ''bad field'')"
proof -
  let ?head = "''POST /echo HTTP/1.1'' @ CRLF @ ''Content-Length: 2'' @ CRLF @ CRLF"
  let ?req = "''POST /echo HTTP/1.1'' @ CRLF @ ''Content-Length: 2'' @ CRLF @ CRLF @ ''hi''"
  let ?c0 = "\<lparr>incoming = [?req], reads = 0, written = []\<rparr>"
  let ?c1 = "\<lparr>incoming = [], reads = Suc 0, written = []\<rparr>"
  let ?b0 = "\<lparr>data = [], length' = 0\<rparr>"
  let ?b1 = "bufPush ?b0 ?req"
  have cut0: "cutMessage ?b0 = (Inr None, ?b0)"
    by (simp add: cutMessage_def content_def indexOf_def CRLF_def kMaxHeaderLen_def)
  have wf: "wf_buf ?b0" by (simp add: wf_buf_def)
  have ct: "content ?b1 = ?req"
    using content_bufPush [OF wf, of ?req] by (simp add: content_def)
  have idx: "indexOf ?req (CRLF @ CRLF) = 38"
    by (simp add: indexOf_def CRLF_def)
  have tk: "take (nat 38 + 4) ?req = ?head"
    by (simp add: CRLF_def)
  have sl: "splitLines ?head = [''POST /echo HTTP/1.1'', ''Content-Length: 2'', [], []]"
    by (simp add: splitLines_def toString_def CRLF_def Buffer_from_def utf8_unit_def
        char_of_eq_iff)
  have rl: "parseRequestLine ''POST /echo HTTP/1.1'' = Inr (js ''POST'', ''/echo'', js ''1.1'')"
    by (simp add: parseRequestLine_def toString_def trim_def isWhiteSpace_def startsWith_def
        js_def Let_def Buffer_from_def utf8_unit_def char_of_eq_iff)
  have vh: "validateHeader ''Content-Length: 2''"
    by (simp add: validateHeader_def toString_def indexOf_def tchar_def js_def Let_def)
  have parse: "parseHTTPReq ?head = Inl (HTTPError 400 ''bad field'')"
    unfolding parseHTTPReq_def sl Let_def by (simp add: rl vh validateHeader_empty)
  have cut1: "cutMessage ?b1 = (Inl (HTTPError 400 ''bad field''), ?b1)"
    unfolding cutMessage_def ct Let_def idx tk parse by simp
  have step0: "serveLoop ?c0 ?b0 = serveLoop ?c1 ?b1"
    by (subst serveLoop.simps) (simp add: cut0 soRead_def Let_def CRLF_def)
  have step1: "serveLoop ?c1 ?b1 = (Inl (HTTPError 400 ''bad field''), ?c1, ?b1)"
    by (subst serveLoop.simps, simp only: cut1, simp)
  show ?thesis
    unfolding serveClient_def step0 step1 by simp
qed

lemma utf8_bytes_nonempty: "s \<noteq> [] \<Longrightarrow> utf8_bytes s \<noteq> []"
  by (induction s rule: utf8_bytes.induct) (auto simp: utf8_unit_def utf8_pair_def Let_def)

text \<open>
  When the driver stops with an \<open>HTTPError\<close> (as it does on every complete header
  block), \<open>newConn\<close> writes the error response, whose body is an in-memory reader of
  a non-empty message: the write repeats the body and never returns, and
  \<open>socket.destroy()\<close> is not reached.
\<close>

lemma newConn_diverges:
  assumes "fst (serveClient conn) = Inl (HTTPError c m)"
  shows "newConn conn = None"
proof -
  obtain conn1 buf1 where s: "serveClient conn = (Inl (HTTPError c m), conn1, buf1)"
    using assms by (cases "serveClient conn") auto
  have "Buffer_from (js m @ [10]) \<noteq> []"
    using utf8_bytes_nonempty [of "js m @ [10]"] by (simp add: Buffer_from_def)
  then show ?thesis
    by (simp add: newConn_def s writeHTTPResp_memory_diverges)
qed

end
